theory Spec2Isabelle
  imports Main "HOL-Library.Sublist"
begin

section \<open>Strings\<close>

text \<open>
  A Python \<open>str\<close> is a sequence of Unicode code points, so a character is a natural
  number and a string a list of them. ASCII literals are written through \<open>u\<close>.
\<close>

type_synonym uchar = nat
type_synonym ustring = "nat list"

definition u :: "string \<Rightarrow> ustring" where
  "u s = map of_char s"

text \<open>
  \<open>str.isspace\<close>, which is also what \<open>str.strip()\<close> removes and what \<open>\\s\<close> matches in
  a \<open>str\<close> pattern: the code points CPython lists as whitespace.
\<close>

definition isspace :: "uchar \<Rightarrow> bool" where
  "isspace c \<longleftrightarrow>
     (9 \<le> c \<and> c \<le> 13) \<or> (28 \<le> c \<and> c \<le> 32) \<or> c = 133 \<or> c = 160 \<or> c = 5760 \<or>
     (8192 \<le> c \<and> c \<le> 8202) \<or> c = 8232 \<or> c = 8233 \<or> c = 8239 \<or> c = 8287 \<or> c = 12288"

definition lstrip :: "ustring \<Rightarrow> ustring" where
  "lstrip s = dropWhile isspace s"

definition rstrip :: "ustring \<Rightarrow> ustring" where
  "rstrip s = rev (dropWhile isspace (rev s))"

definition strip :: "ustring \<Rightarrow> ustring" where
  "strip s = rstrip (lstrip s)"

definition startswith :: "ustring \<Rightarrow> ustring \<Rightarrow> bool" where
  "startswith s p \<longleftrightarrow> take (length p) s = p"

text \<open>\<open>p in s\<close> on strings: \<open>p\<close> occurs in \<open>s\<close> as a contiguous substring.\<close>

fun str_in :: "ustring \<Rightarrow> ustring \<Rightarrow> bool" where
  "str_in p [] \<longleftrightarrow> p = []"
| "str_in p (c # cs) \<longleftrightarrow> startswith (c # cs) p \<or> str_in p cs"

text \<open>\<open>s.split('\\n')\<close>: always at least one piece.\<close>

fun split_nl :: "ustring \<Rightarrow> ustring list" where
  "split_nl [] = [[]]"
| "split_nl (c # cs) =
     (if c = 10 then [] # split_nl cs
      else (case split_nl cs of [] \<Rightarrow> [[c]] | l # ls \<Rightarrow> (c # l) # ls))"

text \<open>\<open>'\\n'.join(ls)\<close>.\<close>

fun join_nl :: "ustring list \<Rightarrow> ustring" where
  "join_nl [] = []"
| "join_nl [l] = l"
| "join_nl (l # ls) = l @ 10 # join_nl ls"

text \<open>\<open>' '.join(ls)\<close>.\<close>

fun join_sp :: "ustring list \<Rightarrow> ustring" where
  "join_sp [] = []"
| "join_sp [l] = l"
| "join_sp (l # ls) = l @ 32 # join_sp ls"

text \<open>The index of the first element that satisfies \<open>P\<close>: a \<open>for\<close> loop left by \<open>break\<close>.\<close>

fun find_first :: "('a \<Rightarrow> bool) \<Rightarrow> 'a list \<Rightarrow> nat option" where
  "find_first P [] = None"
| "find_first P (x # xs) =
     (if P x then Some 0 else map_option Suc (find_first P xs))"

section \<open>Regular expressions as the \<open>re\<close> module matches them\<close>

text \<open>
  \<open>re\<close> is a backtracking matcher: at a position it tries the alternatives of the
  pattern in a fixed order and takes the first way through. \<open>ms r (s, g)\<close> lists, in that
  order, every way \<open>r\<close> matches a prefix of \<open>s\<close>: the text left over and the groups
  captured, starting from the groups \<open>g\<close>. The head of the list is the match \<open>re\<close> reports.

  \<open>Chr P\<close> is one character of a class (a literal, \<open>[...]\<close>, \<open>.\<close>, \<open>\\s\<close>, \<open>\\d\<close>);
  \<open>Star\<close> is the greedy \<open>*\<close> and \<open>Lazy\<close> the reluctant \<open>*?\<close>; \<open>Group k\<close> is the
  \<open>k\<close>-th capturing group; \<open>Ahead\<close> is \<open>(?=...)\<close>; \<open>EndStr\<close> is \<open>$\<close> (the end of the
  text, or just before a final newline) and \<open>EndLine\<close> is \<open>$\<close> under \<open>re.MULTILINE\<close>
  (the end of the text or just before any newline). An iteration of a star that
  consumes nothing ends the loop; no star of this program has such a body.
\<close>

datatype regex =
    Chr "uchar \<Rightarrow> bool"
  | Eps
  | Seq regex regex
  | Alt regex regex
  | Star regex
  | Lazy regex
  | Group nat regex
  | Ahead regex
  | EndStr
  | EndLine

type_synonym groups = "nat \<Rightarrow> ustring option"
type_synonym mstate = "ustring \<times> groups"

function ms :: "regex \<Rightarrow> mstate \<Rightarrow> mstate list" where
  "ms (Chr P) (s, g) = (case s of [] \<Rightarrow> [] | c # cs \<Rightarrow> if P c then [(cs, g)] else [])"
| "ms Eps (s, g) = [(s, g)]"
| "ms (Seq a b) (s, g) = concat (map (ms b) (ms a (s, g)))"
| "ms (Alt a b) (s, g) = ms a (s, g) @ ms b (s, g)"
| "ms (Star r) (s, g) =
     concat (map (ms (Star r)) (filter (\<lambda>t. length (fst t) < length s) (ms r (s, g))))
     @ [(s, g)]"
| "ms (Lazy r) (s, g) =
     (s, g) #
     concat (map (ms (Lazy r)) (filter (\<lambda>t. length (fst t) < length s) (ms r (s, g))))"
| "ms (Group k r) (s, g) =
     map (\<lambda>t. (fst t, (snd t)(k \<mapsto> take (length s - length (fst t)) s))) (ms r (s, g))"
| "ms (Ahead r) (s, g) = (case ms r (s, g) of [] \<Rightarrow> [] | t # _ \<Rightarrow> [(s, snd t)])"
| "ms EndStr (s, g) = (if s = [] \<or> s = [10] then [(s, g)] else [])"
| "ms EndLine (s, g) = (case s of [] \<Rightarrow> [(s, g)] | c # _ \<Rightarrow> if c = 10 then [(s, g)] else [])"
  by pat_completeness auto
termination
  by (relation "measures [\<lambda>(r, t). size r, \<lambda>(r, t). length (fst t)]") auto

declare ms.simps(5,6) [simp del]


text \<open>
  \<open>re.match(r, s)\<close>: the first way \<open>r\<close> matches at the start of \<open>s\<close>, as the text
  matched and the groups, or \<open>None\<close>. A leading \<open>^\<close> in a pattern given to \<open>re.match\<close>
  holds at the only position tried and is left out of the patterns below.
\<close>

type_synonym rmatch = "ustring \<times> groups"

definition first_at :: "regex \<Rightarrow> ustring \<Rightarrow> rmatch option" where
  "first_at r s =
     (case ms r (s, Map.empty) of
        [] \<Rightarrow> None
      | t # _ \<Rightarrow> Some (take (length s - length (fst t)) s, snd t))"

definition re_match :: "regex \<Rightarrow> ustring \<Rightarrow> rmatch option" where
  "re_match r s = first_at r s"

text \<open>\<open>m.group(k)\<close>: \<open>None\<close> when the group took no part in the match.\<close>

definition group :: "rmatch \<Rightarrow> nat \<Rightarrow> ustring option" where
  "group m k = snd m k"

text \<open>\<open>re.search(r, s)\<close>: the match at the leftmost position that has one.\<close>

fun re_search :: "regex \<Rightarrow> ustring \<Rightarrow> rmatch option" where
  "re_search r [] = first_at r []"
| "re_search r (c # cs) =
     (case first_at r (c # cs) of
        Some m \<Rightarrow> Some m
      | None \<Rightarrow> re_search r cs)"

text \<open>
  The successive non-overlapping matches of \<open>r\<close> in \<open>s\<close>, left to right, as
  \<open>re.finditer\<close> yields them: each with the text skipped before it, and at the end the
  text after the last match. \<open>acc\<close> holds the text skipped so far, reversed. Only a match
  that consumes text counts; every pattern this program gives to \<open>re.sub\<close>,
  \<open>re.split\<close> or \<open>re.findall\<close> contains a literal character outside every star, so
  none of them matches the empty string.
\<close>

function scan :: "regex \<Rightarrow> ustring \<Rightarrow> ustring \<Rightarrow> (ustring \<times> rmatch) list \<times> ustring" where
  "scan r acc s =
     (case first_at r s of
        Some m \<Rightarrow>
          (if fst m \<noteq> [] then
             (case scan r [] (drop (length (fst m)) s) of
                (found, rest) \<Rightarrow> ((rev acc, m) # found, rest))
           else (case s of [] \<Rightarrow> ([], rev acc) | c # cs \<Rightarrow> scan r (c # acc) cs))
      | None \<Rightarrow> (case s of [] \<Rightarrow> ([], rev acc) | c # cs \<Rightarrow> scan r (c # acc) cs))"
  by pat_completeness auto
termination
  by (relation "measure (\<lambda>(r, acc, s). length s)") (auto simp: first_at_def split: list.splits)

declare scan.simps [simp del]

text \<open>\<open>re.sub(r, repl, s)\<close> for a replacement without group references.\<close>

definition re_sub :: "regex \<Rightarrow> ustring \<Rightarrow> ustring \<Rightarrow> ustring" where
  "re_sub r repl s =
     (case scan r [] s of
        (found, rest) \<Rightarrow> concat (map (\<lambda>(skipped, m). skipped @ repl) found) @ rest)"

text \<open>\<open>re.split(r, s)\<close> for a pattern without capturing groups.\<close>

definition re_split :: "regex \<Rightarrow> ustring \<Rightarrow> ustring list" where
  "re_split r s = (case scan r [] s of (found, rest) \<Rightarrow> map fst found @ [rest])"

text \<open>
  \<open>re.findall(r, s)\<close> for a pattern with exactly one group: the text of group 1 of each
  match, the empty string where the group took no part.
\<close>

definition re_findall :: "regex \<Rightarrow> ustring \<Rightarrow> ustring list" where
  "re_findall r s =
     map (\<lambda>(skipped, m). case group m 1 of None \<Rightarrow> [] | Some x \<Rightarrow> x) (fst (scan r [] s))"

subsection \<open>Building patterns\<close>

definition seqs :: "regex list \<Rightarrow> regex" where
  "seqs rs = foldr Seq rs Eps"

definition plus :: "regex \<Rightarrow> regex" where
  "plus r = Seq r (Star r)"

definition lazy_plus :: "regex \<Rightarrow> regex" where
  "lazy_plus r = Seq r (Lazy r)"

definition chr :: "uchar \<Rightarrow> regex" where
  "chr c = Chr (\<lambda>x. x = c)"

definition lit :: "ustring \<Rightarrow> regex" where
  "lit s = seqs (map chr s)"

fun alts :: "regex list \<Rightarrow> regex" where
  "alts [] = Chr (\<lambda>x. False)"
| "alts [r] = r"
| "alts (r # rs) = Alt r (alts rs)"

definition ws :: regex where
  "ws = Chr isspace"

definition dot :: regex where
  "dot = Chr (\<lambda>x. x \<noteq> 10)"

definition no :: "uchar \<Rightarrow> regex" where
  "no c = Chr (\<lambda>x. x \<noteq> c)"

text \<open>
  What the program takes from the Unicode tables of the interpreter: which characters a
  literal matches under \<open>re.IGNORECASE\<close>, which characters \<open>\\d\<close> matches, and
  \<open>str.lower\<close>. They are parameters of the model, and the general theorems hold for
  every table. \<open>ascii_tables\<close> is only the instance the examples run on: it folds the
  case of \<open>A\<close> to \<open>Z\<close> and counts \<open>0\<close> to \<open>9\<close> as digits, so it agrees with the
  interpreter on text whose cased letters and digits are all ASCII (the examples hold no
  other), and differs from it on accented letters and on the digits of other scripts.
\<close>

record unicode_tables =
  ci_match :: "uchar \<Rightarrow> uchar \<Rightarrow> bool"
  decimal :: "uchar \<Rightarrow> bool"
  lower :: "ustring \<Rightarrow> ustring"

definition ascii_lower :: "uchar \<Rightarrow> uchar" where
  "ascii_lower c = (if 65 \<le> c \<and> c \<le> 90 then c + 32 else c)"

definition ascii_tables :: unicode_tables where
  "ascii_tables =
     \<lparr> ci_match = (\<lambda>p c. ascii_lower p = ascii_lower c),
       decimal = (\<lambda>c. 48 \<le> c \<and> c \<le> 57),
       lower = map ascii_lower \<rparr>"

text \<open>\<open>re.escape(s)\<close> compiled under \<open>re.IGNORECASE\<close>: the literal text, case ignored.\<close>

definition lit_ic :: "unicode_tables \<Rightarrow> ustring \<Rightarrow> regex" where
  "lit_ic db s = seqs (map (\<lambda>c. Chr (ci_match db c)) s)"


section \<open>extract\_section.py\<close>

datatype py_error = AttributeError | TypeError | ValueError | OSError

subsection \<open>find\_section\<close>

definition hash :: regex where
  "hash = chr 35"

text \<open>The pattern \<open>^#+\\s\<close> of a header line, and \<open>^(#+)\<close> that measures its level.\<close>

definition header_re :: regex where
  "header_re = seqs [plus hash, ws]"

definition level_re :: regex where
  "level_re = Group 1 (plus hash)"

text \<open>
  The four patterns, in the order tried, compiled under
  \<open>re.IGNORECASE | re.MULTILINE\<close>: the title is matched with case ignored (the other
  literals have no case), and \<open>$\<close> is \<open>EndLine\<close>.
\<close>

definition patterns :: "unicode_tables \<Rightarrow> ustring \<Rightarrow> regex list" where
  "patterns db section_title =
     [ seqs [plus hash, Star ws, lit_ic db section_title, Star ws, EndLine],
       seqs [plus hash, Star ws, Star dot, lit_ic db section_title, Star dot, EndLine],
       seqs [plus hash, Star ws, Star dot, lit [0x590D, 0x6742], Star dot,
             lit [0x81EA, 0x7136], Star dot, lit [0x8FC7, 0x7A0B], Star dot,
             lit [0x673A, 0x7406], Star dot, lit [0x63ED, 0x793A], Star dot, EndLine],
       seqs [Star dot, lit_ic db section_title, Star dot] ]"

text \<open>
  The two nested loops: the first pattern that matches some stripped line decides, and
  the start is the first line it matches.
\<close>

fun find_start :: "regex list \<Rightarrow> ustring list \<Rightarrow> nat option" where
  "find_start [] lines = None"
| "find_start (pattern # rest) lines =
     (case find_first (\<lambda>line. re_match pattern (strip line) \<noteq> None) lines of
        Some i \<Rightarrow> Some i
      | None \<Rightarrow> find_start rest lines)"

text \<open>\<open>len(re.match(r'^(#+)', line).group(1))\<close>: \<open>.group\<close> of \<open>None\<close> raises.\<close>

definition heading_level :: "ustring \<Rightarrow> py_error + nat" where
  "heading_level line =
     (case re_match level_re line of
        None \<Rightarrow> Inl AttributeError
      | Some m \<Rightarrow> (case group m 1 of None \<Rightarrow> Inl TypeError | Some h \<Rightarrow> Inr (length h)))"

text \<open>
  The loop for the end of the section over the lines after the start: the offset of the
  first header line, stripped, whose level is at most \<open>start_level\<close>.
\<close>

fun find_end :: "nat \<Rightarrow> ustring list \<Rightarrow> py_error + nat option" where
  "find_end start_level [] = Inr None"
| "find_end start_level (l # ls) =
     (let line = strip l in
      if re_match header_re line \<noteq> None then
        (case heading_level line of
           Inl e \<Rightarrow> Inl e
         | Inr current_level \<Rightarrow>
             if current_level \<le> start_level then Inr (Some 0)
             else map_sum id (map_option Suc) (find_end start_level ls))
      else map_sum id (map_option Suc) (find_end start_level ls))"

text \<open>The keyword search that runs when no pattern matched.\<close>

definition complex_keywords :: "ustring list" where
  "complex_keywords =
     [ [0x590D, 0x6742], [0x81EA, 0x7136, 0x8FC7, 0x7A0B], [0x673A, 0x7406],
       [0x63ED, 0x793A], [0x5730, 0x5E54], [0x5730, 0x9707], [0x6D41, 0x4F53],
       [0x706B, 0x5C71] ]"

record blocks =
  potential_sections :: "(ustring option \<times> int \<times> ustring) list"
  current_section :: "ustring list"
  current_header :: "ustring option"

definition relevant :: "ustring list \<Rightarrow> bool" where
  "relevant section \<longleftrightarrow>
     section \<noteq> [] \<and> list_ex (\<lambda>keyword. str_in keyword (join_nl section)) complex_keywords"

definition block_step :: "blocks \<Rightarrow> nat \<times> ustring \<Rightarrow> blocks" where
  "block_step st il =
     (case il of (i, line) \<Rightarrow>
        if re_match header_re line \<noteq> None then
          \<lparr> potential_sections =
              (if relevant (current_section st) then
                 potential_sections st @
                 [(current_header st, int i - int (length (current_section st)),
                   join_nl (current_section st))]
               else potential_sections st),
            current_section = [line],
            current_header = Some line \<rparr>
        else st\<lparr> current_section := current_section st @ [line] \<rparr>)"

definition related_content :: "ustring list \<Rightarrow> ustring option" where
  "related_content lines =
     (let st = foldl block_step
                 \<lparr> potential_sections = [], current_section = [], current_header = None \<rparr>
                 (enumerate 0 lines);
          found =
            (if relevant (current_section st) then
               potential_sections st @
               [(current_header st, int (length lines) - int (length (current_section st)),
                 join_nl (current_section st))]
             else potential_sections st)
      in case found of [] \<Rightarrow> None | (header, at, text) # _ \<Rightarrow> Some text)"

definition find_section :: "unicode_tables \<Rightarrow> ustring \<Rightarrow> ustring \<Rightarrow> py_error + ustring option" where
  "find_section db content section_title =
     (let lines = split_nl content in
      case find_start (patterns db section_title) lines of
        None \<Rightarrow> Inr (related_content lines)
      | Some section_start \<Rightarrow>
          (case heading_level (lines ! section_start) of
             Inl e \<Rightarrow> Inl e
           | Inr start_level \<Rightarrow>
               (case find_end start_level (drop (section_start + 1) lines) of
                  Inl e \<Rightarrow> Inl e
                | Inr found \<Rightarrow>
                    (let section_end =
                           (case found of
                              None \<Rightarrow> length lines
                            | Some k \<Rightarrow> section_start + 1 + k)
                     in Inr (Some (join_nl
                          (take (section_end - section_start) (drop section_start lines))))))))"


subsection \<open>extract\_table\_cells\_from\_line\<close>

record fields =
  core_problem :: ustring
  data_source :: ustring
  data_mining_methods :: ustring
  conclusion :: ustring
  summary :: ustring

definition pipe :: regex where
  "pipe = chr 124"

definition star2 :: regex where
  "star2 = lit (u ''**'')"

text \<open>The delimiter \<open>\\s*\\|\\s*(?=(?:[^|]*\\|)*[^|]*$)\<close>.\<close>

definition cell_delimiter :: regex where
  "cell_delimiter =
     seqs [Star ws, pipe, Star ws,
           Ahead (seqs [Star (seqs [Star (no 124), pipe]), Star (no 124), EndStr])]"

text \<open>
  \<open>problem_patterns\<close>: \<open>(?:\<lparr>\\d+\<rparr>[^|]*\\|)\\s*([^|]+?)(?=\\s*\\|)\<close> with full-width
  parentheses, and \<open>\\*\\*([^*]*(?:A|B|C)[^*]*)\\*\\*\<close> for the three problem words.
\<close>

definition problem_patterns :: "unicode_tables \<Rightarrow> regex list" where
  "problem_patterns db =
     [ seqs [chr 0xFF08, plus (Chr (decimal db)), chr 0xFF09, Star (no 124), pipe,
             Star ws, Group 1 (lazy_plus (no 124)), Ahead (seqs [Star ws, pipe])],
       seqs [star2,
             Group 1 (seqs [Star (no 42),
                            alts [lit [0x95EE, 0x9898], lit [0x539F, 0x56E0], lit [0x673A, 0x5236]],
                            Star (no 42)]),
             star2] ]"

text \<open>
  \<open>method_patterns\<close>: \<open>(\\*\\*[^*]*(?:A|B|C|D)[^*]*\\*\\*[^|]*)\<close> and \<open>((?:E|F|G|H)[^|]*)\<close>.
\<close>

definition method_patterns :: "regex list" where
  "method_patterns =
     [ Group 1 (seqs [star2, Star (no 42),
                      alts [lit [0x65B9, 0x6CD5], lit [0x5206, 0x6790],
                            lit [0x6A21, 0x578B], lit [0x7B97, 0x6CD5]],
                      Star (no 42), star2, Star (no 124)]),
       Group 1 (seqs [alts [lit [0x673A, 0x5668, 0x5B66, 0x4E60], lit [0x6DF1, 0x5EA6, 0x5B66, 0x4E60],
                            lit [0x6570, 0x636E, 0x6316, 0x6398], lit [0x7EDF, 0x8BA1, 0x5206, 0x6790]],
                      Star (no 124)]) ]"

text \<open>
  The loop over \<open>problem_patterns\<close>: the first pattern found in the line gives
  \<open>match.group(1).strip()\<close>; \<open>.strip\<close> of \<open>None\<close> raises.
\<close>

fun first_problem :: "regex list \<Rightarrow> ustring \<Rightarrow> py_error + ustring" where
  "first_problem [] line = Inr []"
| "first_problem (pattern # rest) line =
     (case re_search pattern line of
        None \<Rightarrow> first_problem rest line
      | Some m \<Rightarrow> (case group m 1 of None \<Rightarrow> Inl AttributeError | Some x \<Rightarrow> Inr (strip x)))"

text \<open>The loop over \<open>method_patterns\<close>: the first pattern with matches gives them joined.\<close>

fun first_methods :: "regex list \<Rightarrow> ustring \<Rightarrow> ustring" where
  "first_methods [] line = []"
| "first_methods (pattern # rest) line =
     (case re_findall pattern line of
        [] \<Rightarrow> first_methods rest line
      | matches \<Rightarrow> join_sp matches)"

text \<open>The clean-up of one value: only a non-empty value is touched.\<close>

definition clean_field :: "ustring \<Rightarrow> ustring" where
  "clean_field v =
     (if v \<noteq> [] then re_sub star2 [] (strip (re_sub (plus ws) [32] v)) else v)"

definition clean_fields :: "fields \<Rightarrow> fields" where
  "clean_fields r =
     \<lparr> core_problem = clean_field (core_problem r),
       data_source = clean_field (data_source r),
       data_mining_methods = clean_field (data_mining_methods r),
       conclusion = clean_field (conclusion r),
       summary = clean_field (summary r) \<rparr>"

definition extract_table_cells_from_line :: "unicode_tables \<Rightarrow> ustring \<Rightarrow> py_error + fields" where
  "extract_table_cells_from_line db line =
     (let parts = re_split cell_delimiter line in
      if length parts \<ge> 6 then
        Inr (clean_fields
          \<lparr> core_problem = (if length parts > 1 then strip (parts ! 1) else []),
            data_source = (if length parts > 2 then strip (parts ! 2) else []),
            data_mining_methods = (if length parts > 3 then strip (parts ! 3) else []),
            conclusion = (if length parts > 4 then strip (parts ! 4) else []),
            summary = (if length parts > 5 then strip (parts ! 5) else []) \<rparr>)
      else
        (case first_problem (problem_patterns db) line of
           Inl e \<Rightarrow> Inl e
         | Inr problem \<Rightarrow>
             Inr (clean_fields
               \<lparr> core_problem = problem,
                 data_source = [],
                 data_mining_methods = first_methods method_patterns line,
                 conclusion = [],
                 summary = [] \<rparr>)))"

subsection \<open>extract\_papers\_from\_section\<close>

text \<open>
  The dictionary of one paper; \<open>context'\<close> is its key \<open>context\<close>. \<open>title\<close> and \<open>url\<close> are what \<open>link_match.group\<close>
  returned, which is \<open>None\<close> for a group that took no part in the match.
\<close>

record paper = fields +
  title :: "ustring option"
  url :: "ustring option"
  context' :: ustring
  number :: nat

text \<open>The link pattern \<open>^\\[([^\\]]+)\\]\\(([^)]+)\\)\<close>.\<close>

definition link_re :: regex where
  "link_re =
     seqs [chr 91, Group 1 (plus (no 93)), chr 93, chr 40, Group 2 (plus (no 41)), chr 41]"

definition separator_mark :: ustring where
  "separator_mark = u ''---|''"

definition header_mark :: ustring where
  "header_mark = u ''**'' @ [0x6587, 0x7AE0] @ u ''**''"

text \<open>The loop over the lines of the section; \<open>papers\<close> is the list built so far.\<close>

fun papers_loop :: "unicode_tables \<Rightarrow> paper list \<Rightarrow> ustring list \<Rightarrow> py_error + paper list" where
  "papers_loop db papers [] = Inr papers"
| "papers_loop db papers (l # ls) =
     (let line = strip l in
      if line = [] \<or> startswith line separator_mark \<or> startswith line header_mark
      then papers_loop db papers ls
      else
        (case re_match link_re line of
           None \<Rightarrow> papers_loop db papers ls
         | Some link_match \<Rightarrow>
             (case extract_table_cells_from_line db line of
                Inl e \<Rightarrow> Inl e
              | Inr extracted_fields \<Rightarrow>
                  papers_loop db
                    (papers @
                     [fields.extend extracted_fields
                        \<lparr> title = group link_match 1, url = group link_match 2,
                          context' = line, number = length papers + 1 \<rparr>])
                    ls)))"

definition extract_papers_from_section :: "unicode_tables \<Rightarrow> ustring \<Rightarrow> py_error + paper list" where
  "extract_papers_from_section db section_content =
     papers_loop db [] (split_nl section_content)"


subsection \<open>extract\_research\_details\<close>

text \<open>
  A label, a full-width or ASCII colon, and the text up to the next pipe or the end:
  \<open>LABEL[\<dots>:]\\s*([^|]+?)(?:\\s*\\||\\s*$)\<close>.
\<close>

definition colon :: regex where
  "colon = Chr (\<lambda>x. x = 0xFF1A \<or> x = 58)"

definition labelled :: "regex \<Rightarrow> regex" where
  "labelled label =
     seqs [label, colon, Star ws, Group 1 (lazy_plus (no 124)),
           Alt (seqs [Star ws, pipe]) (seqs [Star ws, EndStr])]"

definition entry_patterns :: "regex list" where
  "entry_patterns =
     [ labelled (lit [0x7814, 0x7A76, 0x5207, 0x5165, 0x53E3]),
       labelled (lit [0x6838, 0x5FC3, 0x95EE, 0x9898]),
       labelled (lit [0x7814, 0x7A76, 0x76EE, 0x6807]),
       labelled (lit [0x4E3B, 0x8981, 0x95EE, 0x9898]),
       seqs [star2, Group 1 (seqs [plus (no 42), lit [0x95EE, 0x9898], Star (no 42)]), star2] ]"

definition details_method_patterns :: "regex list" where
  "details_method_patterns =
     [ labelled (lit [0x6570, 0x636E, 0x6316, 0x6398, 0x53CA, 0x5206, 0x6790, 0x65B9, 0x6CD5]),
       labelled (lit [0x65B9, 0x6CD5]),
       labelled (lit [0x5206, 0x6790, 0x65B9, 0x6CD5]),
       labelled (lit [0x6280, 0x672F]),
       labelled (seqs [star2, lit [0x65B9, 0x6CD5], Star (no 42), star2]) ]"

definition tech_patterns :: "regex list" where
  "tech_patterns =
     [ Group 1 (seqs [lit [0x673A, 0x5668, 0x5B66, 0x4E60], Star (no 124)]),
       Group 1 (seqs [lit [0x6DF1, 0x5EA6, 0x5B66, 0x4E60], Star (no 124)]),
       Group 1 (seqs [lit [0x6570, 0x636E, 0x6316, 0x6398], Star (no 124)]),
       Group 1 (seqs [lit [0x7EDF, 0x8BA1, 0x5206, 0x6790], Star (no 124)]),
       Group 1 (seqs [lit [0x6A21, 0x578B], Star (no 124)]),
       Group 1 (seqs [lit [0x7B97, 0x6CD5], Star (no 124)]),
       Group 1 (seqs [lit [0x5206, 0x6790], Star (no 124), lit [0x65B9, 0x6CD5], Star (no 124)]) ]"

text \<open>
  The loops over the label patterns: the first pattern found gives
  \<open>match.group(1).strip()\<close> with the bold markers removed and the whitespace runs
  collapsed, in this order; with no pattern found the value stays empty.
\<close>

fun first_labelled :: "regex list \<Rightarrow> ustring \<Rightarrow> py_error + ustring" where
  "first_labelled [] content = Inr []"
| "first_labelled (pattern # rest) content =
     (case re_search pattern content of
        None \<Rightarrow> first_labelled rest content
      | Some m \<Rightarrow>
          (case group m 1 of
             None \<Rightarrow> Inl AttributeError
           | Some x \<Rightarrow> Inr (re_sub (plus ws) [32] (re_sub star2 [] (strip x)))))"

text \<open>The loop over \<open>tech_patterns\<close>: \<open>match.group(1).strip()\<close> of the first one found.\<close>

fun first_tech :: "regex list \<Rightarrow> ustring \<Rightarrow> py_error + ustring" where
  "first_tech [] content = Inr []"
| "first_tech (pattern # rest) content =
     (case re_search pattern content of
        None \<Rightarrow> first_tech rest content
      | Some m \<Rightarrow> (case group m 1 of None \<Rightarrow> Inl AttributeError | Some x \<Rightarrow> Inr (strip x)))"

text \<open>The dictionary returned: its keys \<open>research_entry_point\<close> and \<open>data_mining_methods\<close>.\<close>

record details =
  research_entry_point :: ustring
  methods :: ustring

definition extract_research_details :: "paper \<Rightarrow> py_error + details" where
  "extract_research_details p =
     (let content = context' p;
          data_methods = data_mining_methods p;
          core = core_problem p
      in case (if core \<noteq> [] then Inr core else first_labelled entry_patterns content) of
           Inl e \<Rightarrow> Inl e
         | Inr research_entry \<Rightarrow>
             (case (if data_methods \<noteq> [] then Inr data_methods
                    else first_labelled details_method_patterns content) of
                Inl e \<Rightarrow> Inl e
              | Inr found \<Rightarrow>
                  (case (if found = [] then first_tech tech_patterns content else Inr found) of
                     Inl e \<Rightarrow> Inl e
                   | Inr found' \<Rightarrow>
                       Inr \<lparr> research_entry_point = research_entry, methods = found' \<rparr>)))"

subsection \<open>main\<close>

text \<open>
  What \<open>main\<close> does to the loaded text, writing and printing apart: the section is the
  one \<open>find_section\<close> returns, or the whole document when it returns \<open>None\<close> or an empty
  string; the papers are extracted from it and each is updated with its details.
\<close>

record analysed = paper +
  entry_point :: ustring

fun update_all :: "paper list \<Rightarrow> py_error + analysed list" where
  "update_all [] = Inr []"
| "update_all (p # ps) =
     (case extract_research_details p of
        Inl e \<Rightarrow> Inl e
      | Inr d \<Rightarrow>
          (case update_all ps of
             Inl e \<Rightarrow> Inl e
           | Inr rest \<Rightarrow>
               Inr (paper.extend (p\<lparr> data_mining_methods := methods d \<rparr>)
                      \<lparr> entry_point = research_entry_point d \<rparr> # rest)))"

definition section_of :: "unicode_tables \<Rightarrow> ustring \<Rightarrow> ustring \<Rightarrow> py_error + ustring" where
  "section_of db content section_title =
     (case find_section db content section_title of
        Inl e \<Rightarrow> Inl e
      | Inr None \<Rightarrow> Inr content
      | Inr (Some section_content) \<Rightarrow>
          Inr (if section_content \<noteq> [] then section_content else content))"

definition analyse :: "unicode_tables \<Rightarrow> ustring \<Rightarrow> ustring \<Rightarrow> py_error + analysed list" where
  "analyse db content section_title =
     (case section_of db content section_title of
        Inl e \<Rightarrow> Inl e
      | Inr section_content \<Rightarrow>
          (case extract_papers_from_section db section_content of
             Inl e \<Rightarrow> Inl e
           | Inr papers \<Rightarrow> update_all papers))"

text \<open>The title \<open>main\<close> looks for.\<close>

definition target_section_title :: ustring where
  "target_section_title =
     [0x590D, 0x6742, 0x81EA, 0x7136, 0x8FC7, 0x7A0B, 0x673A, 0x7406, 0x63ED, 0x793A]"

section \<open>convert\_word\_html.py\<close>

subsection \<open>read\_html\_file\<close>






subsection \<open>clean\_mso\_attributes and clean\_html\_content\<close>

text \<open>
  The parsed tree. A string of the tree has a kind: plain text, CDATA, a comment, or
  another special string (the text of a script or style element in later versions of the
  library). A tag has a name, attributes in the order of the dictionary, each a string or
  a list of strings (\<open>class\<close> and the other multi-valued attributes), and children.
\<close>

datatype string_kind = Plain | CData | Comment | Special

datatype attr_value = Str ustring | Classes "ustring list"

datatype node =
    Text string_kind ustring
  | Tag ustring "(ustring \<times> attr_value) list" "node list"

text \<open>\<open>any(pattern in v for pattern in [\<dots>])\<close> for a list of markers.\<close>

definition any_in :: "ustring list \<Rightarrow> ustring \<Rightarrow> bool" where
  "any_in markers v = list_ex (\<lambda>pattern. str_in pattern v) markers"

text \<open>
  One attribute of an element: what is left of it, nothing when it is removed. A string
  value goes when its lower-case form holds a marker; of a list the marked items go, and
  the attribute with them when none is left.
\<close>

definition clean_attr :: "unicode_tables \<Rightarrow> ustring \<times> attr_value \<Rightarrow> (ustring \<times> attr_value) list" where
  "clean_attr db a =
     (case a of
        (attr_name, Str attr_value) \<Rightarrow>
          if any_in [u ''mso-'', u ''microsoft'', u ''word'', u ''office''] (lower db attr_value)
          then [] else [a]
      | (attr_name, Classes attr_value) \<Rightarrow>
          (let new_classes =
                 filter (\<lambda>cls. \<not> any_in [u ''mso'', u ''microsoft'', u ''word'', u ''office'']
                                     (lower db cls)) attr_value
           in if new_classes \<noteq> attr_value then
                (if new_classes \<noteq> [] then [(attr_name, Classes new_classes)] else [])
              else [a]))"

text \<open>The first loop, over \<open>soup.find_all()\<close>: every tag below the root, not the root.\<close>

fun clean_element :: "unicode_tables \<Rightarrow> node \<Rightarrow> node" where
  "clean_element db (Text k s) = Text k s"
| "clean_element db (Tag name attrs contents) =
     Tag name (concat (map (clean_attr db) attrs)) (map (clean_element db) contents)"

text \<open>
  \<open>for tag in root.find_all(\<dots>): if P(tag): tag.decompose()\<close>. The tags are visited in
  document order, so a tag is tested before anything below it is removed, a removed tag
  takes everything below it along, and what was removed before lies outside the tag being
  tested. \<open>prune P\<close> is what is left of a node below the root, \<open>below\<close> applies a pass
  to the children of the root.
\<close>

fun prune :: "(node \<Rightarrow> bool) \<Rightarrow> node \<Rightarrow> node list" where
  "prune P (Text k s) = [Text k s]"
| "prune P (Tag name attrs contents) =
     (if P (Tag name attrs contents) then []
      else [Tag name attrs (concat (map (prune P) contents))])"

fun below :: "(node \<Rightarrow> node list) \<Rightarrow> node \<Rightarrow> node" where
  "below f (Text k s) = Text k s"
| "below f (Tag name attrs contents) = Tag name attrs (concat (map f contents))"

text \<open>\<open>re.compile(r'^(v|o|w):')\<close> searched in the name of a tag.\<close>

definition mso_name :: regex where
  "mso_name = seqs [alts [chr 118, chr 111, chr 119], chr 58]"

fun is_mso_tag :: "node \<Rightarrow> bool" where
  "is_mso_tag (Tag name attrs contents) \<longleftrightarrow> re_match mso_name name \<noteq> None"
| "is_mso_tag (Text k s) \<longleftrightarrow> False"

text \<open>
  \<open>tag.string\<close>: the only child when it is a string, the \<open>.string\<close> of the only child
  when it is a tag, \<open>None\<close> otherwise.
\<close>

fun string_of :: "node \<Rightarrow> ustring option" where
  "string_of (Text k s) = Some s"
| "string_of (Tag name attrs [c]) = string_of c"
| "string_of (Tag name attrs contents) = None"

fun is_mso_style :: "unicode_tables \<Rightarrow> node \<Rightarrow> bool" where
  "is_mso_style db (Tag name attrs contents) \<longleftrightarrow>
     name = u ''style'' \<and>
     (case string_of (Tag name attrs contents) of
        None \<Rightarrow> False
      | Some s \<Rightarrow> s \<noteq> [] \<and> any_in [u ''mso-'', u ''microsoft'', u ''word''] (lower db s))"
| "is_mso_style db (Text k s) \<longleftrightarrow> False"

definition clean_mso_attributes :: "unicode_tables \<Rightarrow> node \<Rightarrow> node" where
  "clean_mso_attributes db soup =
     below (prune (is_mso_style db))
       (below (prune is_mso_tag)
          (below (\<lambda>element. [clean_element db element]) soup))"

text \<open>
  \<open>get_text(strip=True)\<close>: the plain and CDATA strings below the node, stripped, the
  empty ones left out, joined.
\<close>

fun all_strings :: "node \<Rightarrow> ustring list" where
  "all_strings (Text k s) =
     (if (k = Plain \<or> k = CData) \<and> strip s \<noteq> [] then [strip s] else [])"
| "all_strings (Tag name attrs contents) = concat (map all_strings contents)"

definition get_text :: "node \<Rightarrow> ustring" where
  "get_text n = concat (all_strings n)"

fun is_script_or_style :: "node \<Rightarrow> bool" where
  "is_script_or_style (Tag name attrs contents) \<longleftrightarrow> name = u ''script'' \<or> name = u ''style''"
| "is_script_or_style (Text k s) \<longleftrightarrow> False"

fun is_empty_block :: "node \<Rightarrow> bool" where
  "is_empty_block (Tag name attrs contents) \<longleftrightarrow>
     (name = u ''p'' \<or> name = u ''div'') \<and> get_text (Tag name attrs contents) = []"
| "is_empty_block (Text k s) \<longleftrightarrow> False"

text \<open>
  The steps of \<open>clean_html_content\<close> on the body, after the comments are taken out and
  before the tree is printed: lines 86 to 95.
\<close>

definition clean_body :: "unicode_tables \<Rightarrow> node \<Rightarrow> node" where
  "clean_body db body =
     below (prune is_empty_block)
       (below (prune is_script_or_style) (clean_mso_attributes db body))"

text \<open>
  The same without the removal of the script and style tags: \<open>clean_mso_attributes\<close>
  followed by the removal of the empty paragraphs and divisions.
\<close>

definition mso_stripper :: "unicode_tables \<Rightarrow> node \<Rightarrow> node" where
  "mso_stripper db body = below (prune is_empty_block) (clean_mso_attributes db body)"

section \<open>The row splitter as the specification words it\<close>

text \<open>
  A row starts with a link construct \<open>[text](url)\<close>: an opening bracket, a non-empty
  text without a closing bracket, \<open>](\<close>, a non-empty target without a closing
  parenthesis, and the closing parenthesis. \<open>spec_link\<close> gives the text and the target.
\<close>

definition spec_link :: "ustring \<Rightarrow> (ustring \<times> ustring) option" where
  "spec_link row =
     (let text = takeWhile (\<lambda>c. c \<noteq> 93) (drop 1 row);
          after_text = dropWhile (\<lambda>c. c \<noteq> 93) (drop 1 row);
          target = takeWhile (\<lambda>c. c \<noteq> 41) (drop 2 after_text);
          after_target = dropWhile (\<lambda>c. c \<noteq> 41) (drop 2 after_text)
      in if startswith row [91] \<and> text \<noteq> [] \<and> startswith after_text [93, 40] \<and>
            target \<noteq> [] \<and> startswith after_target [41]
         then Some (text, target) else None)"

text \<open>
  A trimmed line qualifies as a paper row when it is non-empty, is no table separator, is
  no bolded header label, and starts with a link construct.
\<close>

definition spec_qualifies :: "ustring \<Rightarrow> bool" where
  "spec_qualifies row \<longleftrightarrow>
     row \<noteq> [] \<and> \<not> startswith row separator_mark \<and> \<not> startswith row header_mark \<and>
     spec_link row \<noteq> None"


section \<open>Auxiliary notions for the proofs\<close>

text \<open>\<open>binds k r\<close>: every way through \<open>r\<close> passes group \<open>k\<close>, so a match of \<open>r\<close> sets it.\<close>

fun binds :: "nat \<Rightarrow> regex \<Rightarrow> bool" where
  "binds k (Group j r) \<longleftrightarrow> j = k \<or> binds k r"
| "binds k (Seq a b) \<longleftrightarrow> binds k a \<or> binds k b"
| "binds k (Alt a b) \<longleftrightarrow> binds k a \<and> binds k b"
| "binds k (Ahead r) \<longleftrightarrow> binds k r"
| "binds k r \<longleftrightarrow> False"

text \<open>
  The ways a greedy star of a character class leaves the text, longest match first:
  the text after each prefix of characters of the class.
\<close>

fun tails_while :: "(uchar \<Rightarrow> bool) \<Rightarrow> ustring \<Rightarrow> ustring list" where
  "tails_while P [] = [[]]"
| "tails_while P (c # cs) = (if P c then tails_while P cs else []) @ [c # cs]"

text \<open>
  What holds of the keyword search after the lines \<open>pre\<close>: the block being collected is
  the end of \<open>pre\<close>, and every block recorded is a run of lines of \<open>pre\<close>, joined.
\<close>

definition blocks_of :: "ustring list \<Rightarrow> blocks \<Rightarrow> bool" where
  "blocks_of pre st \<longleftrightarrow>
     suffix (current_section st) pre \<and>
     list_all (\<lambda>b. \<exists>run. sublist run pre \<and> snd (snd b) = join_nl run) (potential_sections st)"

text \<open>
  Properties of trees: \<open>every_tag Q n\<close> when \<open>Q\<close> holds of every tag of \<open>n\<close>, \<open>n\<close>
  included; \<open>inside Q n\<close> when it holds of every tag below \<open>n\<close>.
\<close>

fun every_tag :: "(node \<Rightarrow> bool) \<Rightarrow> node \<Rightarrow> bool" where
  "every_tag Q (Text k s) \<longleftrightarrow> True"
| "every_tag Q (Tag name attrs contents) \<longleftrightarrow>
     Q (Tag name attrs contents) \<and> list_all (every_tag Q) contents"

fun inside :: "(node \<Rightarrow> bool) \<Rightarrow> node \<Rightarrow> bool" where
  "inside Q (Text k s) \<longleftrightarrow> True"
| "inside Q (Tag name attrs contents) \<longleftrightarrow> list_all (every_tag Q) contents"

fun is_text :: "node \<Rightarrow> bool" where
  "is_text (Text k s) \<longleftrightarrow> True"
| "is_text (Tag name attrs contents) \<longleftrightarrow> False"

text \<open>
  A style element as an HTML parser builds it: its content is raw text, so its children
  are strings.
\<close>

fun style_is_raw :: "node \<Rightarrow> bool" where
  "style_is_raw (Tag name attrs contents) \<longleftrightarrow>
     (if name = u ''style'' then list_all is_text contents else True)"
| "style_is_raw (Text k s) \<longleftrightarrow> True"

definition raw_styles :: "node \<Rightarrow> bool" where
  "raw_styles n = every_tag style_is_raw n"

text \<open>A tag whose attributes the first loop leaves as they are.\<close>

fun attrs_clean :: "unicode_tables \<Rightarrow> node \<Rightarrow> bool" where
  "attrs_clean db (Tag name attrs contents) \<longleftrightarrow> concat (map (clean_attr db) attrs) = attrs"
| "attrs_clean db (Text k s) \<longleftrightarrow> True"

section \<open>Verification\<close>

subsection \<open>Evaluation rules\<close>

lemmas re_defs = re_match_def first_at_def group_def seqs_def plus_def lazy_plus_def chr_def lit_def
  ws_def dot_def no_def hash_def header_re_def level_re_def pipe_def star2_def lit_ic_def colon_def
  ms.simps(5,6) scan.simps
lemmas str_defs = u_def strip_def lstrip_def rstrip_def isspace_def startswith_def

subsection \<open>Groups that every match sets\<close>

lemma ms_keeps_group:
  "t \<in> set (ms r sg) \<Longrightarrow> snd sg k \<noteq> None \<Longrightarrow> snd t k \<noteq> None"
proof (induction r sg arbitrary: t rule: ms.induct)
  case (1 P s g)
  then show ?case by (cases s) (auto split: if_splits)
next
  case (3 a b s g)
  from "3.prems"(1) obtain m where m: "m \<in> set (ms a (s, g))" and t: "t \<in> set (ms b m)"
    by auto
  from "3.IH"(1) [OF m "3.prems"(2)] have "snd m k \<noteq> None" .
  from "3.IH"(2) [OF m t this] show ?case .
next
  case (5 r s g)
  from "5.prems"(1) consider "t = (s, g)"
    | m where "m \<in> set (ms r (s, g))" "length (fst m) < length s" "t \<in> set (ms (Star r) m)"
    by (subst (asm) ms.simps(5)) auto
  then show ?case
  proof cases
    case 1
    with "5.prems"(2) show ?thesis by simp
  next
    case 2
    from "5.IH"(1) [OF 2(1) "5.prems"(2)] have k: "snd m k \<noteq> None" .
    from 2(1,2) have "m \<in> set (filter (\<lambda>t. length (fst t) < length s) (ms r (s, g)))" by simp
    from "5.IH"(2) [OF this 2(3) k] show ?thesis .
  qed
next
  case (6 r s g)
  from "6.prems"(1) consider "t = (s, g)"
    | m where "m \<in> set (ms r (s, g))" "length (fst m) < length s" "t \<in> set (ms (Lazy r) m)"
    by (subst (asm) ms.simps(6)) auto
  then show ?case
  proof cases
    case 1
    with "6.prems"(2) show ?thesis by simp
  next
    case 2
    from "6.IH"(1) [OF 2(1) "6.prems"(2)] have k: "snd m k \<noteq> None" .
    from 2(1,2) have "m \<in> set (filter (\<lambda>t. length (fst t) < length s) (ms r (s, g)))" by simp
    from "6.IH"(2) [OF this 2(3) k] show ?thesis .
  qed
next
  case (7 j r s g)
  then show ?case by auto
next
  case (8 r s g)
  show ?case
  proof (cases "ms r (s, g)")
    case Nil
    with "8.prems"(1) show ?thesis by simp
  next
    case (Cons m ms')
    with "8.prems"(1) have t: "t = (s, snd m)" by simp
    from Cons have "m \<in> set (ms r (s, g))" by simp
    from "8.IH" [OF this "8.prems"(2)] t show ?thesis by simp
  qed
next
  case (2 s g)
  then show ?case by simp
next
  case (4 a b s g)
  from "4.prems"(1) consider "t \<in> set (ms a (s, g))" | "t \<in> set (ms b (s, g))" by auto
  then show ?case
  proof cases
    case 1
    from "4.IH"(1) [OF 1 "4.prems"(2)] show ?thesis .
  next
    case 2
    from "4.IH"(2) [OF 2 "4.prems"(2)] show ?thesis .
  qed
next
  case (9 s g)
  then show ?case by (simp split: if_splits)
next
  case (10 s g)
  then show ?case by (simp split: list.splits if_splits)
qed

lemma ms_binds:
  "t \<in> set (ms r sg) \<Longrightarrow> binds k r \<Longrightarrow> snd t k \<noteq> None"
proof (induction r sg arbitrary: t rule: ms.induct)
  case (3 a b s g)
  from "3.prems"(1) obtain m where m: "m \<in> set (ms a (s, g))" and t: "t \<in> set (ms b m)"
    by auto
  from "3.prems"(2) consider "binds k a" | "binds k b" by auto
  then show ?case
  proof cases
    case 1
    from "3.IH"(1) [OF m 1] have "snd m k \<noteq> None" .
    with t show ?thesis using ms_keeps_group by blast
  next
    case 2
    from "3.IH"(2) [OF m t 2] show ?thesis .
  qed
next
  case (4 a b s g)
  from "4.prems"(2) have ab: "binds k a" "binds k b" by auto
  from "4.prems"(1) consider "t \<in> set (ms a (s, g))" | "t \<in> set (ms b (s, g))" by auto
  then show ?case
  proof cases
    case 1
    from "4.IH"(1) [OF 1 ab(1)] show ?thesis .
  next
    case 2
    from "4.IH"(2) [OF 2 ab(2)] show ?thesis .
  qed
next
  case (7 j r s g)
  then show ?case by auto
next
  case (8 r s g)
  show ?case
  proof (cases "ms r (s, g)")
    case Nil
    with "8.prems"(1) show ?thesis by simp
  next
    case (Cons m ms')
    with "8.prems"(1) have t: "t = (s, snd m)" by simp
    from Cons have "m \<in> set (ms r (s, g))" by simp
    from "8.IH" [OF this] "8.prems"(2) t show ?thesis by simp
  qed
next
  case (1 P s g)
  then show ?case by simp
next
  case (2 s g)
  then show ?case by simp
next
  case (5 r s g)
  from "5.prems"(2) show ?case by simp
next
  case (6 r s g)
  from "6.prems"(2) show ?case by simp
next
  case (9 s g)
  from "9.prems"(2) show ?case by simp
next
  case (10 s g)
  from "10.prems"(2) show ?case by simp
qed

lemma first_at_binds:
  assumes "first_at r s = Some m" and "binds k r"
  shows "group m k \<noteq> None"
proof -
  from assms(1) obtain t ts where t: "ms r (s, Map.empty) = t # ts" and m: "snd m = snd t"
    by (auto simp: first_at_def split: list.splits)
  from t have "t \<in> set (ms r (s, Map.empty))" by simp
  from ms_binds [OF this assms(2)] m show ?thesis by (simp add: group_def)
qed

lemma re_search_binds: "re_search r s = Some m \<Longrightarrow> binds k r \<Longrightarrow> group m k \<noteq> None"
proof (induction r s rule: re_search.induct)
  case (1 r)
  then show ?case by (simp add: first_at_binds)
next
  case (2 r c cs)
  show ?case
  proof (cases "first_at r (c # cs)")
    case None
    with 2 show ?thesis by simp
  next
    case (Some m')
    with "2.prems" show ?thesis by (simp add: first_at_binds)
  qed
qed

subsection \<open>The extractors raise nothing\<close>

lemma first_problem_total:
  "list_all (binds 1) ps \<Longrightarrow> \<exists>x. first_problem ps line = Inr x"
proof (induction ps)
  case Nil
  then show ?case by simp
next
  case (Cons p ps)
  show ?case
  proof (cases "re_search p line")
    case None
    with Cons show ?thesis by simp
  next
    case (Some m)
    from Cons.prems have "binds 1 p" by simp
    from re_search_binds [OF Some this] obtain x where "group m 1 = Some x" by auto
    with Some show ?thesis by simp
  qed
qed

lemma first_labelled_total:
  "list_all (binds 1) ps \<Longrightarrow> \<exists>x. first_labelled ps content = Inr x"
proof (induction ps)
  case Nil
  then show ?case by simp
next
  case (Cons p ps)
  show ?case
  proof (cases "re_search p content")
    case None
    with Cons show ?thesis by simp
  next
    case (Some m)
    from Cons.prems have "binds 1 p" by simp
    from re_search_binds [OF Some this] obtain x where "group m 1 = Some x" by auto
    with Some show ?thesis by simp
  qed
qed

lemma first_tech_total:
  "list_all (binds 1) ps \<Longrightarrow> \<exists>x. first_tech ps content = Inr x"
proof (induction ps)
  case Nil
  then show ?case by simp
next
  case (Cons p ps)
  show ?case
  proof (cases "re_search p content")
    case None
    with Cons show ?thesis by simp
  next
    case (Some m)
    from Cons.prems have "binds 1 p" by simp
    from re_search_binds [OF Some this] obtain x where "group m 1 = Some x" by auto
    with Some show ?thesis by simp
  qed
qed

lemma binds_problem_patterns: "list_all (binds 1) (problem_patterns db)"
  by (simp add: problem_patterns_def seqs_def)

lemma binds_labelled: "binds 1 (labelled l)"
  by (simp add: labelled_def seqs_def)

lemma binds_entry_patterns: "list_all (binds 1) entry_patterns"
  by (simp add: entry_patterns_def binds_labelled [unfolded One_nat_def] seqs_def)

lemma binds_details_method_patterns: "list_all (binds 1) details_method_patterns"
  by (simp add: details_method_patterns_def binds_labelled [unfolded One_nat_def])

lemma binds_tech_patterns: "list_all (binds 1) tech_patterns"
  by (simp add: tech_patterns_def)

lemma extract_table_cells_total: "\<exists>r. extract_table_cells_from_line db line = Inr r"
proof -
  from first_problem_total [OF binds_problem_patterns]
  obtain x where "first_problem (problem_patterns db) line = Inr x" by blast
  then show ?thesis by (simp add: extract_table_cells_from_line_def Let_def)
qed

lemma extract_research_details_total: "\<exists>d. extract_research_details p = Inr d"
proof -
  obtain a where a: "first_labelled entry_patterns (context' p) = Inr a"
    using first_labelled_total [OF binds_entry_patterns] by blast
  obtain b where b: "first_labelled details_method_patterns (context' p) = Inr b"
    using first_labelled_total [OF binds_details_method_patterns] by blast
  obtain c where c: "first_tech tech_patterns (context' p) = Inr c"
    using first_tech_total [OF binds_tech_patterns] by blast
  show ?thesis by (simp add: extract_research_details_def Let_def a b c)
qed

subsection \<open>The tables of the examples\<close>

lemma ci_match_ascii: "ci_match ascii_tables p c \<longleftrightarrow> ascii_lower p = ascii_lower c"
  by (simp add: ascii_tables_def)

lemma decimal_ascii: "decimal ascii_tables c \<longleftrightarrow> 48 \<le> c \<and> c \<le> 57"
  by (simp add: ascii_tables_def)

lemmas tbl_defs = ci_match_ascii decimal_ascii ascii_lower_def

subsection \<open>find\_section: heading search\<close>

lemma find_section_raises:
  assumes "find_start (patterns db section_title) (split_nl content) = Some i"
    and "re_match level_re (split_nl content ! i) = None"
  shows "find_section db content section_title = Inl AttributeError"
  using assms by (simp add: find_section_def heading_level_def)

lemma find_section_returns:
  assumes "find_start (patterns db section_title) (split_nl content) = Some i"
    and "heading_level (split_nl content ! i) = Inr lv"
    and "find_end lv (drop (i + 1) (split_nl content)) = Inr e"
  shows "find_section db content section_title =
     Inr (Some (join_nl (take ((case e of None \<Rightarrow> length (split_nl content) | Some k \<Rightarrow> i + 1 + k) - i)
                           (drop i (split_nl content)))))"
  using assms by (simp add: find_section_def Let_def)

text \<open>
  Claim C4 says that \<open>find_section\<close> returns the joined range without raising whenever
  one of the four patterns matched, the fourth included, and that the start level can
  always be computed. On the one-line document \<open>see <title>\<close> only the fourth pattern
  matches; the line has no leading \<open>#\<close>, so \<open>re.match(r'^(#+)', \<dots>)\<close> is \<open>None\<close> and
  \<open>.group(1)\<close> raises \<open>AttributeError\<close>.
\<close>

theorem find_section_raises_on_plain_line:
  "find_start (patterns ascii_tables target_section_title)
       (split_nl (u ''see '' @ target_section_title)) = Some 0 \<and>
   re_match (patterns ascii_tables target_section_title ! 3)
       (strip (u ''see '' @ target_section_title)) \<noteq> None \<and>
   find_section ascii_tables (u ''see '' @ target_section_title) target_section_title
     = Inl AttributeError"
proof -
  let ?c = "u ''see '' @ target_section_title"
  have 1: "find_start (patterns ascii_tables target_section_title) (split_nl ?c) = Some 0"
    by (simp add: patterns_def target_section_title_def tbl_defs re_defs str_defs)
  have 2: "re_match level_re (split_nl ?c ! 0) = None"
    by (simp add: target_section_title_def re_defs str_defs)
  have 3: "re_match (patterns ascii_tables target_section_title ! 3) (strip ?c) \<noteq> None"
    by (simp add: patterns_def target_section_title_def tbl_defs re_defs str_defs)
  from 1 3 find_section_raises [OF 1 2] show ?thesis by blast
qed

text \<open>
  Claim C3 says that for every document with a heading line exactly equal to the title,
  \<open>find_section\<close> returns the range from that heading to the next heading of the same
  or a higher level. The patterns are matched against the stripped line, the start level
  is read from the line as it stands: on the document whose only line is the heading
  indented by two spaces, the exact pattern matches and the level computation raises
  \<open>AttributeError\<close>.
\<close>

theorem find_section_raises_on_indented_heading:
  "re_match (patterns ascii_tables target_section_title ! 0)
       (strip (u ''  ## '' @ target_section_title)) \<noteq> None \<and>
   find_section ascii_tables (u ''  ## '' @ target_section_title) target_section_title
     = Inl AttributeError"
proof -
  let ?c = "u ''  ## '' @ target_section_title"
  have 1: "find_start (patterns ascii_tables target_section_title) (split_nl ?c) = Some 0"
    by (simp add: patterns_def target_section_title_def tbl_defs re_defs str_defs)
  have 2: "re_match level_re (split_nl ?c ! 0) = None"
    by (simp add: target_section_title_def re_defs str_defs)
  have 3: "re_match (patterns ascii_tables target_section_title ! 0) (strip ?c) \<noteq> None"
    by (simp add: patterns_def target_section_title_def tbl_defs re_defs str_defs)
  from 3 find_section_raises [OF 1 2] show ?thesis by blast
qed

subsection \<open>extract\_table\_cells\_from\_line\<close>

text \<open>
  Claim C7 says that every non-empty value returned by
  \<open>extract_table_cells_from_line\<close> has its whitespace runs collapsed to a single space and
  its bold markers removed. The whitespace is collapsed before the markers are removed, so
  the cell \<open>a ** b\<close> comes out as \<open>a\<close>, two spaces, \<open>b\<close>.
\<close>

theorem cleaned_value_keeps_double_space:
  "extract_table_cells_from_line ascii_tables (u ''[T](x)|a ** b|c|d|e|f'') =
     Inr \<lparr> core_problem = u ''a  b'', data_source = u ''c'', data_mining_methods = u ''d'',
           conclusion = u ''e'', summary = u ''f'' \<rparr>"
proof -
  have parts: "re_split cell_delimiter (u ''[T](x)|a ** b|c|d|e|f'') =
      [u ''[T](x)'', u ''a ** b'', u ''c'', u ''d'', u ''e'', u ''f'']"
    by (simp add: re_split_def cell_delimiter_def re_defs str_defs)
  have a: "clean_field (strip (u ''a ** b'')) = u ''a  b''"
    by (simp add: clean_field_def re_sub_def re_defs str_defs)
  have c: "clean_field (strip (u ''c'')) = u ''c''" "clean_field (strip (u ''d'')) = u ''d''"
    "clean_field (strip (u ''e'')) = u ''e''" "clean_field (strip (u ''f'')) = u ''f''"
    by (simp_all add: clean_field_def re_sub_def re_defs str_defs)
  show ?thesis
    unfolding extract_table_cells_from_line_def parts by (simp add: clean_fields_def a c)
qed

lemma extract_table_cells_positional:
  assumes "length (re_split cell_delimiter line) \<ge> 6"
  shows "extract_table_cells_from_line db line =
     Inr (clean_fields
       \<lparr> core_problem = strip (re_split cell_delimiter line ! 1),
         data_source = strip (re_split cell_delimiter line ! 2),
         data_mining_methods = strip (re_split cell_delimiter line ! 3),
         conclusion = strip (re_split cell_delimiter line ! 4),
         summary = strip (re_split cell_delimiter line ! 5) \<rparr>)"
proof -
  let ?parts = "re_split cell_delimiter line"
  from assms have len: "1 < length ?parts" "2 < length ?parts" "3 < length ?parts"
    "4 < length ?parts" "5 < length ?parts"
    by simp_all
  show ?thesis
    unfolding extract_table_cells_from_line_def Let_def
    by (simp only: assms len if_True)
qed

text \<open>
  Claim C6 says that with six parts or more the five values returned are parts 1 to 5,
  trimmed and post-processed (whitespace runs collapsed to a single space, bold markers
  removed). The values are taken by position, but the clean-up collapses the whitespace
  and trims before it removes the markers: the sixth part \<open>** note ** end\<close> comes out
  with a leading space and two adjacent spaces.
\<close>

theorem positional_value_not_post_processed:
  "re_split cell_delimiter (u ''[T](x)|p|q|r|s|** note ** end'') =
     [u ''[T](x)'', u ''p'', u ''q'', u ''r'', u ''s'', u ''** note ** end''] \<and>
   extract_table_cells_from_line ascii_tables (u ''[T](x)|p|q|r|s|** note ** end'') =
     Inr \<lparr> core_problem = u ''p'', data_source = u ''q'', data_mining_methods = u ''r'',
           conclusion = u ''s'', summary = u '' note  end'' \<rparr>"
proof -
  have parts: "re_split cell_delimiter (u ''[T](x)|p|q|r|s|** note ** end'') =
      [u ''[T](x)'', u ''p'', u ''q'', u ''r'', u ''s'', u ''** note ** end'']"
    by (simp add: re_split_def cell_delimiter_def re_defs str_defs)
  have a: "clean_field (strip (u ''** note ** end'')) = u '' note  end''"
    by (simp add: clean_field_def re_sub_def re_defs str_defs)
  have c: "clean_field (strip (u ''p'')) = u ''p''" "clean_field (strip (u ''q'')) = u ''q''"
    "clean_field (strip (u ''r'')) = u ''r''" "clean_field (strip (u ''s'')) = u ''s''"
    by (simp_all add: clean_field_def re_sub_def re_defs str_defs)
  have "extract_table_cells_from_line ascii_tables (u ''[T](x)|p|q|r|s|** note ** end'') =
     Inr \<lparr> core_problem = u ''p'', data_source = u ''q'', data_mining_methods = u ''r'',
           conclusion = u ''s'', summary = u '' note  end'' \<rparr>"
    unfolding extract_table_cells_from_line_def parts by (simp add: clean_fields_def a c)
  with parts show ?thesis by blast
qed

subsection \<open>extract\_research\_details\<close>

text \<open>
  Claim C5 says that \<open>extract_research_details\<close> prefers the populated values of
  \<open>core_problem\<close> and \<open>data_source\<close> over parsing the row again. It never reads
  \<open>data_source\<close>: for a paper whose \<open>data_source\<close> is \<open>X\<close> and whose row holds a
  labelled method, the methods returned are the ones parsed from the row, and neither
  returned value is \<open>X\<close>.
\<close>

theorem data_source_not_preferred:
  "data_source \<lparr> core_problem = [], data_source = u ''X'', data_mining_methods = [],
       conclusion = [], summary = [], title = Some (u ''T''), url = Some (u ''x''),
       context' = [0x65B9, 0x6CD5] @ u '':Y'', number = 1 \<rparr> \<noteq> [] \<and>
   extract_research_details
     \<lparr> core_problem = [], data_source = u ''X'', data_mining_methods = [],
       conclusion = [], summary = [], title = Some (u ''T''), url = Some (u ''x''),
       context' = [0x65B9, 0x6CD5] @ u '':Y'', number = 1 \<rparr>
     = Inr \<lparr> research_entry_point = [], methods = u ''Y'' \<rparr>"
proof -
  let ?row = "[0x65B9, 0x6CD5] @ u '':Y''"
  have e: "first_labelled entry_patterns ?row = Inr []"
    by (simp add: entry_patterns_def labelled_def re_defs str_defs)
  have m: "first_labelled details_method_patterns ?row = Inr (u ''Y'')"
    by (simp add: details_method_patterns_def labelled_def re_sub_def re_defs str_defs)
  have x: "u ''X'' \<noteq> []" "u ''Y'' \<noteq> []"
    by (simp_all add: u_def)
  show ?thesis
    unfolding extract_research_details_def Let_def
    by (simp only: paper.simps fields.simps e m) (simp add: x)
qed

text \<open>
  Claim C5 as the code has it: \<open>extract_research_details\<close> returns for every paper; a
  non-empty \<open>core_problem\<close> is returned as the entry point and a non-empty
  \<open>data_mining_methods\<close> as the methods, whatever the row holds; and the result does not
  depend on \<open>data_source\<close>.
\<close>

theorem second_pass_prefers_populated_fields:
  "\<exists>d. extract_research_details p = Inr d \<and>
        (core_problem p \<noteq> [] \<longrightarrow> research_entry_point d = core_problem p) \<and>
        (data_mining_methods p \<noteq> [] \<longrightarrow> methods d = data_mining_methods p) \<and>
        extract_research_details (p\<lparr>data_source := x\<rparr>) = Inr d"
proof -
  obtain a where a: "first_labelled entry_patterns (context' p) = Inr a"
    using first_labelled_total [OF binds_entry_patterns] by blast
  obtain b where b: "first_labelled details_method_patterns (context' p) = Inr b"
    using first_labelled_total [OF binds_details_method_patterns] by blast
  obtain c where c: "first_tech tech_patterns (context' p) = Inr c"
    using first_tech_total [OF binds_tech_patterns] by blast
  show ?thesis
    by (simp add: extract_research_details_def Let_def a b c)
qed

theorem second_pass_prefers_populated_fields_witness:
  "core_problem \<lparr> core_problem = u ''P'', data_source = u ''S'', data_mining_methods = u ''M'',
       conclusion = [], summary = [], title = Some (u ''T''), url = Some (u ''x''),
       context' = u ''[T](x) row'', number = 1 \<rparr> \<noteq> [] \<and>
   data_mining_methods \<lparr> core_problem = u ''P'', data_source = u ''S'', data_mining_methods = u ''M'',
       conclusion = [], summary = [], title = Some (u ''T''), url = Some (u ''x''),
       context' = u ''[T](x) row'', number = 1 \<rparr> \<noteq> [] \<and>
   extract_research_details
     \<lparr> core_problem = u ''P'', data_source = u ''S'', data_mining_methods = u ''M'',
       conclusion = [], summary = [], title = Some (u ''T''), url = Some (u ''x''),
       context' = u ''[T](x) row'', number = 1 \<rparr>
     = Inr \<lparr> research_entry_point = u ''P'', methods = u ''M'' \<rparr>"
proof -
  let ?p = "\<lparr> core_problem = u ''P'', data_source = u ''S'', data_mining_methods = u ''M'',
       conclusion = [], summary = [], title = Some (u ''T''), url = Some (u ''x''),
       context' = u ''[T](x) row'', number = 1 \<rparr>"
  have ne: "core_problem ?p \<noteq> []" "data_mining_methods ?p \<noteq> []"
    by (simp_all add: u_def)
  from second_pass_prefers_populated_fields [of ?p "[]"] ne
  obtain d where d: "extract_research_details ?p = Inr d"
    and "research_entry_point d = core_problem ?p" and "methods d = data_mining_methods ?p"
    by blast
  then have "d = \<lparr> research_entry_point = u ''P'', methods = u ''M'' \<rparr>"
    by simp
  with d ne show ?thesis by simp
qed

subsection \<open>A greedy run of a character class\<close>

lemma ms_star_chr: "ms (Star (Chr P)) (s, g) = map (\<lambda>t. (t, g)) (tails_while P s)"
proof (induction s)
  case Nil
  show ?case by (simp add: ms.simps(5))
next
  case (Cons c cs)
  show ?case
  proof (cases "P c")
    case True
    with Cons show ?thesis by (simp add: ms.simps(5) [of "Chr P" "c # cs"])
  next
    case False
    then show ?thesis by (simp add: ms.simps(5) [of "Chr P" "c # cs"])
  qed
qed

lemma tails_while_shape:
  "\<exists>rest. tails_while P s = dropWhile P s # rest \<and> (\<forall>t \<in> set rest. \<exists>c cs. t = c # cs \<and> P c)"
proof (induction s)
  case Nil
  show ?case by simp
next
  case (Cons c cs)
  then obtain rest where r: "tails_while P cs = dropWhile P cs # rest"
    and p: "\<forall>t \<in> set rest. \<exists>c cs. t = c # cs \<and> P c" by blast
  show ?case
  proof (cases "P c")
    case True
    with r p show ?thesis by auto
  next
    case False
    then show ?thesis by simp
  qed
qed

lemma take_length_dropWhile: "take (length s - length (dropWhile P s)) s = takeWhile P s"
proof -
  have "length s - length (dropWhile P s) = length (takeWhile P s)"
    by (metis add_diff_cancel_right' length_append takeWhile_dropWhile_id)
  then show ?thesis
    by (metis append_eq_conv_conj takeWhile_dropWhile_id)
qed

lemma ms_group_plus_then_chr:
  assumes "\<And>c. P c \<Longrightarrow> \<not> Q c"
  shows "ms (Seq (Group k (plus (Chr P))) (Seq (Chr Q) r)) (s, g) =
     (if takeWhile P s = [] then []
      else ms (Seq (Chr Q) r) (dropWhile P s, g(k \<mapsto> takeWhile P s)))"
proof (cases s)
  case Nil
  then show ?thesis by (simp add: plus_def)
next
  case (Cons c cs)
  show ?thesis
  proof (cases "P c")
    case False
    with Cons show ?thesis by (simp add: plus_def)
  next
    case True
    obtain rest where r: "tails_while P cs = dropWhile P cs # rest"
      and p: "\<forall>t \<in> set rest. \<exists>c cs. t = c # cs \<and> P c"
      using tails_while_shape by blast
    have dead: "ms (Seq (Chr Q) r) (t, h) = []" if "t \<in> set rest" for t h
    proof -
      from p that obtain d ds where "t = d # ds" "P d" by blast
      with assms show ?thesis by simp
    qed
    have "concat (map (\<lambda>t. ms (Seq (Chr Q) r) (f t)) rest) = []" if "\<And>t. fst (f t) = t" for f :: "ustring \<Rightarrow> mstate"
    proof -
      have "ms (Seq (Chr Q) r) (f t) = []" if "t \<in> set rest" for t
        using dead [OF that, of "snd (f t)"] \<open>\<And>t. fst (f t) = t\<close> [of t]
        by (metis prod.collapse)
      then show ?thesis by (induction rest) auto
    qed
    note dead_all = this
    let ?X = "Seq (Chr Q) r"
    let ?f = "\<lambda>t. (t, g(k \<mapsto> take (Suc (length cs) - length t) (c # cs)))"
    have tk: "take (Suc (length cs) - length (dropWhile P cs)) (c # cs) = takeWhile P (c # cs)"
      using take_length_dropWhile [of "c # cs" P] True by simp
    have 1: "ms (Seq (Group k (plus (Chr P))) ?X) (s, g) =
        concat (map (ms ?X) (ms (Group k (plus (Chr P))) (s, g)))"
      by (simp only: ms.simps(3))
    have 2: "ms (Group k (plus (Chr P))) (s, g) = map ?f (tails_while P cs)"
      using True Cons by (simp add: plus_def ms_star_chr o_def)
    have 3: "concat (map (ms ?X) (map ?f (tails_while P cs))) = ms ?X (?f (dropWhile P cs))"
      unfolding r using dead_all [of ?f] by (simp add: o_def del: ms.simps(3))
    from True Cons show ?thesis
      unfolding 1 2 3 tk by (simp del: ms.simps(3))
  qed
qed

lemma ms_chr_seq:
  "ms (Seq (Chr Q) r) (s, g) = (case s of [] \<Rightarrow> [] | c # cs \<Rightarrow> if Q c then ms r (cs, g) else [])"
  by (cases s) simp_all

lemma link_re_unfolded:
  "link_re = Seq (Chr (\<lambda>x. x = 91)) (Seq (Group 1 (plus (Chr (\<lambda>x. x \<noteq> 93))))
      (Seq (Chr (\<lambda>x. x = 93)) (Seq (Chr (\<lambda>x. x = 40))
        (Seq (Group 2 (plus (Chr (\<lambda>x. x \<noteq> 41)))) (Seq (Chr (\<lambda>x. x = 41)) Eps)))))"
  by (simp add: link_re_def seqs_def chr_def no_def)

subsection \<open>The link pattern\<close>

lemma spec_link_Nil: "spec_link [] = None"
  by (simp add: spec_link_def startswith_def)

lemma spec_link_Cons:
  "spec_link (c # s) =
     (if c = 91 \<and> takeWhile (\<lambda>c. c \<noteq> 93) s \<noteq> [] then
        (case dropWhile (\<lambda>c. c \<noteq> 93) s of
           x # y # a \<Rightarrow>
             if x = 93 \<and> y = 40 \<and> takeWhile (\<lambda>c. c \<noteq> 41) a \<noteq> [] then
               (case dropWhile (\<lambda>c. c \<noteq> 41) a of
                  z # b \<Rightarrow>
                    if z = 41
                    then Some (takeWhile (\<lambda>c. c \<noteq> 93) s, takeWhile (\<lambda>c. c \<noteq> 41) a)
                    else None
                | [] \<Rightarrow> None)
             else None
         | _ \<Rightarrow> None)
      else None)"
proof -
  define t where "t = takeWhile (\<lambda>c. c \<noteq> 93) s"
  define r where "r = dropWhile (\<lambda>c. c \<noteq> 93) s"
  have 1: "spec_link (c # s) =
     (if c = 91 \<and> t \<noteq> [] \<and> take 2 r = [93, 40] \<and> takeWhile (\<lambda>c. c \<noteq> 41) (drop 2 r) \<noteq> [] \<and>
         take 1 (dropWhile (\<lambda>c. c \<noteq> 41) (drop 2 r)) = [41]
      then Some (t, takeWhile (\<lambda>c. c \<noteq> 41) (drop 2 r)) else None)"
    by (simp add: spec_link_def startswith_def Let_def t_def r_def numeral_2_eq_2)
  show ?thesis
    unfolding 1 t_def [symmetric] r_def [symmetric]
  proof (cases r)
    case Nil
    then show "(if c = 91 \<and> t \<noteq> [] \<and> take 2 r = [93, 40] \<and> takeWhile (\<lambda>c. c \<noteq> 41) (drop 2 r) \<noteq> [] \<and>
         take 1 (dropWhile (\<lambda>c. c \<noteq> 41) (drop 2 r)) = [41]
      then Some (t, takeWhile (\<lambda>c. c \<noteq> 41) (drop 2 r)) else None) =
     (if c = 91 \<and> t \<noteq> [] then
        (case r of
           x # y # a \<Rightarrow>
             if x = 93 \<and> y = 40 \<and> takeWhile (\<lambda>c. c \<noteq> 41) a \<noteq> [] then
               (case dropWhile (\<lambda>c. c \<noteq> 41) a of
                  z # b \<Rightarrow>
                    if z = 41
                    then Some (t, takeWhile (\<lambda>c. c \<noteq> 41) a)
                    else None
                | [] \<Rightarrow> None)
             else None
         | _ \<Rightarrow> None)
      else None)" by simp
  next
    case (Cons x r1)
    show "(if c = 91 \<and> t \<noteq> [] \<and> take 2 r = [93, 40] \<and> takeWhile (\<lambda>c. c \<noteq> 41) (drop 2 r) \<noteq> [] \<and>
         take 1 (dropWhile (\<lambda>c. c \<noteq> 41) (drop 2 r)) = [41]
      then Some (t, takeWhile (\<lambda>c. c \<noteq> 41) (drop 2 r)) else None) =
     (if c = 91 \<and> t \<noteq> [] then
        (case r of
           x # y # a \<Rightarrow>
             if x = 93 \<and> y = 40 \<and> takeWhile (\<lambda>c. c \<noteq> 41) a \<noteq> [] then
               (case dropWhile (\<lambda>c. c \<noteq> 41) a of
                  z # b \<Rightarrow>
                    if z = 41
                    then Some (t, takeWhile (\<lambda>c. c \<noteq> 41) a)
                    else None
                | [] \<Rightarrow> None)
             else None
         | _ \<Rightarrow> None)
      else None)"
    proof (cases r1)
      case Nil
      with Cons show ?thesis by simp
    next
      case (Cons y a)
      define q where "q = dropWhile (\<lambda>c. c \<noteq> 41) a"
      show ?thesis
        unfolding \<open>r = x # r1\<close> Cons
        by (cases q) (auto simp: q_def [symmetric] simp del: dropWhile_eq_Nil_conv)
    qed
  qed
qed

lemma ms_link_re:
  "map snd (ms link_re (s, g)) =
     (case spec_link s of None \<Rightarrow> [] | Some (t, v) \<Rightarrow> [g(1 \<mapsto> t, 2 \<mapsto> v)])"
proof (cases s)
  case Nil
  then show ?thesis by (simp add: link_re_unfolded spec_link_Nil)
next
  case (Cons c s1)
  define t where "t = takeWhile (\<lambda>c. c \<noteq> 93) s1"
  define r where "r = dropWhile (\<lambda>c. c \<noteq> 93) s1"
  let ?R = "Seq (Chr (\<lambda>x. x = 40))
        (Seq (Group 2 (plus (Chr (\<lambda>x. x \<noteq> 41)))) (Seq (Chr (\<lambda>x. x = 41)) Eps))"
  have 1: "ms link_re (c # s1, g) =
      (if c = 91 \<and> t \<noteq> [] then ms (Seq (Chr (\<lambda>x. x = 93)) ?R) (r, g(1 \<mapsto> t)) else [])"
    unfolding link_re_unfolded t_def r_def
    by (simp add: ms_chr_seq ms_group_plus_then_chr del: ms.simps(3))
  have 2: "map snd (ms (Seq (Chr (\<lambda>x. x = 93)) ?R) (r, h)) =
      (case r of
           x # y # a \<Rightarrow>
             if x = 93 \<and> y = 40 \<and> takeWhile (\<lambda>c. c \<noteq> 41) a \<noteq> [] then
               (case dropWhile (\<lambda>c. c \<noteq> 41) a of
                  z # b \<Rightarrow> if z = 41 then [h(2 \<mapsto> takeWhile (\<lambda>c. c \<noteq> 41) a)] else []
                | [] \<Rightarrow> [])
             else []
         | _ \<Rightarrow> [])" for h
  proof (cases r)
    case Nil
    then show ?thesis by (simp add: ms_chr_seq del: ms.simps(3))
  next
    case r: (Cons x r1)
    show ?thesis
    proof (cases r1)
      case Nil
      with r show ?thesis by (simp add: ms_chr_seq del: ms.simps(3))
    next
      case (Cons y a)
      define q where "q = dropWhile (\<lambda>c. c \<noteq> 41) a"
      show ?thesis
        unfolding r Cons
        by (cases q)
          (auto simp: ms_chr_seq ms_group_plus_then_chr q_def [symmetric]
                simp del: ms.simps(3) dropWhile_eq_Nil_conv)
    qed
  qed
  show ?thesis
  proof (cases "c = 91 \<and> t \<noteq> []")
    case False
    then show ?thesis
      unfolding Cons 1 spec_link_Cons t_def [symmetric] r_def [symmetric] by auto
  next
    case True
    have L: "map snd (ms link_re (c # s1, g)) =
      (case r of
           x # y # a \<Rightarrow>
             if x = 93 \<and> y = 40 \<and> takeWhile (\<lambda>c. c \<noteq> 41) a \<noteq> [] then
               (case dropWhile (\<lambda>c. c \<noteq> 41) a of
                  z # b \<Rightarrow> if z = 41 then [(g(1 \<mapsto> t))(2 \<mapsto> takeWhile (\<lambda>c. c \<noteq> 41) a)] else []
                | [] \<Rightarrow> [])
             else []
         | _ \<Rightarrow> [])"
      unfolding 1 if_P [OF True] by (rule 2)
    have R: "spec_link (c # s1) =
        (case r of
           x # y # a \<Rightarrow>
             if x = 93 \<and> y = 40 \<and> takeWhile (\<lambda>c. c \<noteq> 41) a \<noteq> [] then
               (case dropWhile (\<lambda>c. c \<noteq> 41) a of
                  z # b \<Rightarrow>
                    if z = 41 then Some (t, takeWhile (\<lambda>c. c \<noteq> 41) a) else None
                | [] \<Rightarrow> None)
             else None
         | _ \<Rightarrow> None)"
      unfolding spec_link_Cons t_def [symmetric] r_def [symmetric] if_P [OF True] ..
    show ?thesis
      unfolding Cons L R
      by (auto split: list.splits simp del: dropWhile_eq_Nil_conv)
  qed
qed

subsection \<open>extract\_papers\_from\_section\<close>

lemma re_match_link_None:
  assumes "spec_link line = None"
  shows "re_match link_re line = None"
proof -
  from ms_link_re [of line Map.empty] assms have "ms link_re (line, Map.empty) = []" by simp
  then show ?thesis by (simp add: re_match_def first_at_def)
qed

lemma re_match_link_Some:
  assumes "spec_link line = Some (t, v)"
  shows "\<exists>m. re_match link_re line = Some m \<and> group m 1 = Some t \<and> group m 2 = Some v"
proof -
  from ms_link_re [of line Map.empty] assms
  have "map snd (ms link_re (line, Map.empty)) = [Map.empty(1 \<mapsto> t, 2 \<mapsto> v)]" by simp
  then obtain x where x: "ms link_re (line, Map.empty) = [x]"
    and g: "snd x = Map.empty(1 \<mapsto> t, 2 \<mapsto> v)"
    by (cases "ms link_re (line, Map.empty)") auto
  from x g show ?thesis by (simp add: re_match_def first_at_def group_def)
qed

lemma extended:
  "title (fields.extend f \<lparr> title = a, url = b, context' = c, number = n \<rparr>) = a"
  "url (fields.extend f \<lparr> title = a, url = b, context' = c, number = n \<rparr>) = b"
  "context' (fields.extend f \<lparr> title = a, url = b, context' = c, number = n \<rparr>) = c"
  "number (fields.extend f \<lparr> title = a, url = b, context' = c, number = n \<rparr>) = n"
  "fields.truncate (fields.extend f \<lparr> title = a, url = b, context' = c, number = n \<rparr>) = f"
  by (simp_all add: fields.extend_def fields.truncate_def paper.defs)

lemma papers_loop_spec:
  "\<exists>new. papers_loop db papers ls = Inr (papers @ new) \<and>
     map (\<lambda>p. (title p, url p, context' p, number p)) new =
       map (\<lambda>(n, row). (map_option fst (spec_link row), map_option snd (spec_link row), row, n))
         (enumerate (Suc (length papers)) (filter spec_qualifies (map strip ls))) \<and>
     list_all (\<lambda>p. extract_table_cells_from_line db (context' p) = Inr (fields.truncate p)) new"
proof (induction ls arbitrary: papers)
  case Nil
  show ?case by simp
next
  case (Cons l ls)
  let ?line = "strip l"
  show ?case
  proof (cases "spec_qualifies ?line")
    case False
    have skip: "papers_loop db papers (l # ls) = papers_loop db papers ls"
    proof (cases "?line = [] \<or> startswith ?line separator_mark \<or> startswith ?line header_mark")
      case True
      then show ?thesis by (simp add: Let_def)
    next
      case no_mark: False
      with False have "spec_link ?line = None"
        by (cases "spec_link ?line") (simp_all add: spec_qualifies_def)
      from re_match_link_None [OF this] no_mark show ?thesis by (simp add: Let_def)
    qed
    from Cons.IH [of papers] False show ?thesis unfolding skip by simp
  next
    case True
    then obtain t v where tv: "spec_link ?line = Some (t, v)"
      by (auto simp: spec_qualifies_def)
    from re_match_link_Some [OF tv] obtain m where m: "re_match link_re ?line = Some m"
      "group m 1 = Some t" "group m 2 = Some v" by blast
    obtain f where f: "extract_table_cells_from_line db ?line = Inr f"
      using extract_table_cells_total by blast
    let ?p = "fields.extend f \<lparr> title = Some t, url = Some v, context' = ?line,
                 number = length papers + 1 \<rparr>"
    from True m f have step: "papers_loop db papers (l # ls) = papers_loop db (papers @ [?p]) ls"
      by (simp add: spec_qualifies_def Let_def)
    from Cons.IH [of "papers @ [?p]"] obtain new where
      new: "papers_loop db (papers @ [?p]) ls = Inr ((papers @ [?p]) @ new)"
      and recs: "map (\<lambda>p. (title p, url p, context' p, number p)) new =
       map (\<lambda>(n, row). (map_option fst (spec_link row), map_option snd (spec_link row), row, n))
         (enumerate (Suc (length (papers @ [?p]))) (filter spec_qualifies (map strip ls)))"
      and cells: "list_all (\<lambda>p. extract_table_cells_from_line db (context' p) = Inr (fields.truncate p)) new"
      by blast
    show ?thesis
    proof (intro exI [of _ "?p # new"] conjI)
      show "papers_loop db papers (l # ls) = Inr (papers @ ?p # new)"
        unfolding step new by simp
      show "map (\<lambda>p. (title p, url p, context' p, number p)) (?p # new) =
        map (\<lambda>(n, row). (map_option fst (spec_link row), map_option snd (spec_link row), row, n))
         (enumerate (Suc (length papers)) (filter spec_qualifies (map strip (l # ls))))"
        using True recs by (simp add: extended tv)
      show "list_all (\<lambda>p. extract_table_cells_from_line db (context' p) = Inr (fields.truncate p)) (?p # new)"
        using cells f by (simp add: extended)
    qed
  qed
qed

lemma spec_link_iff:
  "spec_link row = Some (t, v) \<longleftrightarrow>
     (\<exists>rest. row = [91] @ t @ [93, 40] @ v @ [41] @ rest \<and>
             t \<noteq> [] \<and> 93 \<notin> set t \<and> v \<noteq> [] \<and> 41 \<notin> set v)"
proof
  assume a: "spec_link row = Some (t, v)"
  then obtain c s where row: "row = c # s" by (cases row) (auto simp: spec_link_Nil)
  from a [unfolded row spec_link_Cons] obtain a' b where
    c: "c = 91" and t: "takeWhile (\<lambda>c. c \<noteq> 93) s = t" "t \<noteq> []"
    and d: "dropWhile (\<lambda>c. c \<noteq> 93) s = 93 # 40 # a'"
    and v: "takeWhile (\<lambda>c. c \<noteq> 41) a' = v" "v \<noteq> []"
    and e: "dropWhile (\<lambda>c. c \<noteq> 41) a' = 41 # b"
    by (auto split: if_splits list.splits simp del: dropWhile_eq_Nil_conv)
  have "s = t @ 93 # 40 # a'" using takeWhile_dropWhile_id [of "\<lambda>c. c \<noteq> 93" s] t d by simp
  moreover have "a' = v @ 41 # b" using takeWhile_dropWhile_id [of "\<lambda>c. c \<noteq> 41" a'] v e by simp
  moreover have "93 \<notin> set t" using t(1) by (metis (mono_tags, lifting) set_takeWhileD)
  moreover have "41 \<notin> set v" using v(1) by (metis (mono_tags, lifting) set_takeWhileD)
  ultimately show "\<exists>rest. row = [91] @ t @ [93, 40] @ v @ [41] @ rest \<and>
             t \<noteq> [] \<and> 93 \<notin> set t \<and> v \<noteq> [] \<and> 41 \<notin> set v"
    using row c t(2) v(2) by auto
next
  assume "\<exists>rest. row = [91] @ t @ [93, 40] @ v @ [41] @ rest \<and>
             t \<noteq> [] \<and> 93 \<notin> set t \<and> v \<noteq> [] \<and> 41 \<notin> set v"
  then obtain rest where row: "row = 91 # (t @ 93 # 40 # (v @ 41 # rest))"
    and t: "t \<noteq> []" "93 \<notin> set t" and v: "v \<noteq> []" "41 \<notin> set v" by auto
  have 1: "takeWhile (\<lambda>c. c \<noteq> 93) (t @ 93 # 40 # (v @ 41 # rest)) = t"
    using t(2) by (simp add: takeWhile_tail) (metis takeWhile_eq_all_conv)
  have 2: "dropWhile (\<lambda>c. c \<noteq> 93) (t @ 93 # 40 # (v @ 41 # rest)) = 93 # 40 # (v @ 41 # rest)"
    using t(2) by (subst dropWhile_append2) auto
  have 3: "takeWhile (\<lambda>c. c \<noteq> 41) (v @ 41 # rest) = v"
    using v(2) by (simp add: takeWhile_tail) (metis takeWhile_eq_all_conv)
  have 4: "dropWhile (\<lambda>c. c \<noteq> 41) (v @ 41 # rest) = 41 # rest"
    using v(2) by (subst dropWhile_append2) auto
  show "spec_link row = Some (t, v)"
    unfolding row spec_link_Cons 1 2 using t(1) v(1) by (simp add: 3 4)
qed



subsection \<open>Lines and runs of lines\<close>

lemma split_nl_not_Nil: "split_nl s \<noteq> []"
  by (induction s) (auto split: list.splits)

lemma join_split_nl: "join_nl (split_nl s) = s"
proof (induction s)
  case Nil
  show ?case by simp
next
  case (Cons c cs)
  show ?case
  proof (cases "c = 10")
    case True
    with Cons show ?thesis
      by (cases "split_nl cs") (simp_all add: split_nl_not_Nil)
  next
    case False
    obtain l ls where l: "split_nl cs = l # ls"
      using split_nl_not_Nil [of cs] by (cases "split_nl cs") auto
    with Cons False show ?thesis by (cases ls) simp_all
  qed
qed

lemma join_nl_append:
  "join_nl (a @ b) =
     (if a = [] then join_nl b else if b = [] then join_nl a else join_nl a @ 10 # join_nl b)"
proof (induction a rule: join_nl.induct)
  case 1
  show ?case by simp
next
  case (2 l)
  show ?case by (cases b) simp_all
next
  case (3 l v va)
  then show ?case by simp
qed

lemma sublist_join_nl:
  assumes "sublist run lines"
  shows "sublist (join_nl run) (join_nl lines)"
proof -
  from assms obtain ps ss where lines: "lines = ps @ run @ ss" by (auto simp: sublist_def)
  have "\<exists>x y. join_nl (ps @ run @ ss) = x @ join_nl run @ y"
  proof (cases "run = []")
    case True
    then show ?thesis by (intro exI [of _ "join_nl (ps @ ss)"] exI [of _ "[]"]) simp
  next
    case False
    have "\<exists>y. join_nl (run @ ss) = join_nl run @ y"
      using False by (simp add: join_nl_append)
    then obtain y where y: "join_nl (run @ ss) = join_nl run @ y" ..
    have "run @ ss \<noteq> []" using False by simp
    then have "\<exists>x. join_nl (ps @ (run @ ss)) = x @ join_nl (run @ ss)"
      by (auto simp add: join_nl_append [of ps] intro: exI [of _ "[]"])
    with y show ?thesis by auto
  qed
  then show ?thesis unfolding lines sublist_def by blast
qed

lemma sublist_strip: "sublist (strip l) l"
proof -
  have "suffix (lstrip l) l" by (simp add: lstrip_def suffix_dropWhile)
  moreover have "prefix (rstrip m) m" for m
  proof -
    have "suffix (dropWhile isspace (rev m)) (rev m)" by (rule suffix_dropWhile)
    then show ?thesis unfolding rstrip_def by (metis rev_rev_ident suffix_to_prefix)
  qed
  ultimately have "suffix (lstrip l) l" "prefix (strip l) (lstrip l)"
    by (simp_all add: strip_def)
  then obtain a b where "l = a @ lstrip l" "lstrip l = strip l @ b"
    by (auto simp: suffix_def prefix_def)
  then have "l = a @ strip l @ b" by simp
  then show ?thesis unfolding sublist_def by blast
qed

lemma line_in_text:
  assumes "l \<in> set (split_nl s)"
  shows "sublist l s"
proof -
  from assms obtain ps ss where "split_nl s = ps @ [l] @ ss"
    by (auto simp: in_set_conv_decomp)
  then have "sublist [l] (split_nl s)" by (auto simp: sublist_def)
  from sublist_join_nl [OF this] show ?thesis by (simp add: join_split_nl)
qed

subsection \<open>find\_section returns a run of lines\<close>

lemma blocks_of_step:
  assumes "blocks_of pre st"
  shows "blocks_of (pre @ [line]) (block_step st (i, line))"
proof -
  from assms have cur: "suffix (current_section st) pre"
    and pot: "list_all (\<lambda>b. \<exists>run. sublist run pre \<and> snd (snd b) = join_nl run) (potential_sections st)"
    by (simp_all add: blocks_of_def)
  have grow: "sublist run (pre @ [line])" if "sublist run pre" for run
    using that by (auto simp: sublist_def) (metis append.assoc)
  from pot have pot': "list_all (\<lambda>b. \<exists>run. sublist run (pre @ [line]) \<and> snd (snd b) = join_nl run)
      (potential_sections st)"
    by (auto simp: list_all_iff dest: grow)
  from cur have "sublist (current_section st) pre" by (rule suffix_imp_sublist)
  then have new: "\<exists>run. sublist run (pre @ [line]) \<and> join_nl (current_section st) = join_nl run"
    using grow by blast
  from cur have cur': "suffix (current_section st @ [line]) (pre @ [line])"
    by (auto simp: suffix_def)
  have one: "suffix [line] (pre @ [line])" by (simp add: suffix_def)
  show ?thesis
    using pot' new cur' one by (simp add: blocks_of_def block_step_def)
qed

lemma blocks_of_fold:
  "blocks_of lines
     (foldl block_step \<lparr> potential_sections = [], current_section = [], current_header = None \<rparr>
        (enumerate 0 lines))"
proof (induction lines rule: rev_induct)
  case Nil
  show ?case by (simp add: blocks_of_def)
next
  case (snoc x xs)
  then show ?case by (simp add: enumerate_append_eq blocks_of_step)
qed

lemma related_content_run:
  assumes "related_content lines = Some text"
  shows "\<exists>run. sublist run lines \<and> text = join_nl run"
proof -
  let ?st = "foldl block_step
      \<lparr> potential_sections = [], current_section = [], current_header = None \<rparr> (enumerate 0 lines)"
  let ?found = "if relevant (current_section ?st) then
       potential_sections ?st @
         [(current_header ?st, int (length lines) - int (length (current_section ?st)),
           join_nl (current_section ?st))]
     else potential_sections ?st"
  from blocks_of_fold [of lines] have cur: "suffix (current_section ?st) lines"
    and pot: "list_all (\<lambda>b. \<exists>run. sublist run lines \<and> snd (snd b) = join_nl run) (potential_sections ?st)"
    by (simp_all add: blocks_of_def)
  from cur have "\<exists>run. sublist run lines \<and> join_nl (current_section ?st) = join_nl run"
    using suffix_imp_sublist by blast
  with pot have all: "list_all (\<lambda>b. \<exists>run. sublist run lines \<and> snd (snd b) = join_nl run) ?found"
    by simp
  from assms obtain b rest where "?found = b # rest" "text = snd (snd b)"
    by (auto simp: related_content_def Let_def split: list.splits)
  with all show ?thesis by simp
qed

lemma find_section_run:
  assumes "find_section db content section_title = Inr (Some section_content)"
  shows "\<exists>run. sublist run (split_nl content) \<and> section_content = join_nl run"
proof (cases "find_start (patterns db section_title) (split_nl content)")
  case None
  with assms have "related_content (split_nl content) = Some section_content"
    by (simp add: find_section_def Let_def)
  from related_content_run [OF this] show ?thesis .
next
  case (Some i)
  with assms obtain n where "section_content = join_nl (take n (drop i (split_nl content)))"
    by (auto simp: find_section_def Let_def split: sum.splits)
  moreover have "sublist (take n (drop i (split_nl content))) (split_nl content)"
    by (metis sublist_drop sublist_take sublist_order.order.trans)
  ultimately show ?thesis by blast
qed

subsection \<open>The context of a record\<close>

lemma section_of_sublist:
  assumes "section_of db content section_title = Inr section_content"
  shows "sublist section_content content"
proof (cases "find_section db content section_title")
  case (Inl e)
  with assms show ?thesis by (simp add: section_of_def)
next
  case (Inr found)
  show ?thesis
  proof (cases found)
    case None
    with Inr assms show ?thesis by (simp add: section_of_def)
  next
    case (Some s)
    show ?thesis
    proof (cases "s = []")
      case True
      with Inr Some assms show ?thesis by (simp add: section_of_def)
    next
      case False
      with Inr Some assms have s: "section_content = s" by (simp add: section_of_def)
      from find_section_run [OF Inr [unfolded Some]] obtain run where
        "sublist run (split_nl content)" "s = join_nl run" by blast
      with sublist_join_nl [of run "split_nl content"] s show ?thesis
        by (simp add: join_split_nl)
    qed
  qed
qed

lemma papers_context:
  assumes "extract_papers_from_section db section_content = Inr papers" and "p \<in> set papers"
  shows "\<exists>l \<in> set (split_nl section_content). context' p = strip l"
proof -
  from papers_loop_spec [of db "[]" "split_nl section_content"] assms(1) have
    "map (\<lambda>p. (title p, url p, context' p, number p)) papers =
       map (\<lambda>(n, row). (map_option fst (spec_link row), map_option snd (spec_link row), row, n))
         (enumerate (Suc 0) (filter spec_qualifies (map strip (split_nl section_content))))"
    by (auto simp: extract_papers_from_section_def)
  then have "map (\<lambda>q. fst (snd (snd q))) (map (\<lambda>p. (title p, url p, context' p, number p)) papers) =
      map (\<lambda>q. fst (snd (snd q)))
       (map (\<lambda>(n, row). (map_option fst (spec_link row), map_option snd (spec_link row), row, n))
         (enumerate (Suc 0) (filter spec_qualifies (map strip (split_nl section_content)))))"
    by simp
  then have "map context' papers = filter spec_qualifies (map strip (split_nl section_content))"
    by (simp add: o_def case_prod_unfold)
  with assms(2) have "context' p \<in> set (map strip (split_nl section_content))"
    by (metis filter_is_subset image_eqI list.set_map subsetD)
  then show ?thesis by auto
qed

lemma update_all_context:
  "update_all ps = Inr rs \<Longrightarrow> map context' rs = map context' ps"
proof (induction ps arbitrary: rs)
  case Nil
  then show ?case by simp
next
  case (Cons p ps)
  then show ?case
    by (auto split: sum.splits simp: paper.extend_def paper.defs)
qed

text \<open>
  Claim C1: every section \<open>find_section\<close> returns is a contiguous run of lines of the
  source, joined; the \<open>context\<close> of every record that \<open>extract_papers_from_section\<close>
  emits from the section \<open>main\<close> uses (the located section, or the whole document when
  none was located) is the stripped text of one line of that section and a contiguous
  substring of the source; and so is the \<open>context\<close> of every record after the second
  pass.
\<close>

theorem zero_fabrication:
  "(find_section db content section_title = Inr (Some found) \<longrightarrow>
      (\<exists>run. sublist run (split_nl content) \<and> found = join_nl run)) \<and>
   (section_of db content section_title = Inr section_content \<longrightarrow>
    extract_papers_from_section db section_content = Inr papers \<longrightarrow> p \<in> set papers \<longrightarrow>
      (\<exists>l \<in> set (split_nl section_content). context' p = strip l) \<and>
      sublist (context' p) content) \<and>
   (analyse db content section_title = Inr analysed \<longrightarrow> r \<in> set analysed \<longrightarrow>
      sublist (context' r) content)"
proof (intro conjI impI)
  assume "find_section db content section_title = Inr (Some found)"
  then show "\<exists>run. sublist run (split_nl content) \<and> found = join_nl run"
    by (rule find_section_run)
next
  assume "extract_papers_from_section db section_content = Inr papers" "p \<in> set papers"
  then show "\<exists>l \<in> set (split_nl section_content). context' p = strip l"
    by (rule papers_context)
next
  assume s: "section_of db content section_title = Inr section_content"
    and e: "extract_papers_from_section db section_content = Inr papers" and p: "p \<in> set papers"
  from papers_context [OF e p] obtain l where
    l: "l \<in> set (split_nl section_content)" "context' p = strip l" by blast
  from sublist_strip [of l] l(2) line_in_text [OF l(1)] section_of_sublist [OF s]
  show "sublist (context' p) content"
    by (metis sublist_order.order.trans)
next
  assume a: "analyse db content section_title = Inr analysed" and r: "r \<in> set analysed"
  from a obtain section_content papers where
    s: "section_of db content section_title = Inr section_content"
    and e: "extract_papers_from_section db section_content = Inr papers"
    and u: "update_all papers = Inr analysed"
    by (auto simp: analyse_def split: sum.splits)
  from r have "context' r \<in> set (map context' analysed)" by simp
  with update_all_context [OF u] obtain p where p: "p \<in> set papers" "context' p = context' r"
    by auto
  from papers_context [OF e p(1)] obtain l where
    l: "l \<in> set (split_nl section_content)" "context' p = strip l" by blast
  from sublist_strip [of l] l(2) p(2) line_in_text [OF l(1)] section_of_sublist [OF s]
  show "sublist (context' r) content"
    by (metis sublist_order.order.trans)
qed

theorem zero_fabrication_witness:
  "find_section ascii_tables
      (u ''# A\<newline>x\<newline>## '' @ target_section_title @ u ''\<newline>  [T](x)|a|b|c|d|e \<newline># B\<newline>[U](y)'')
      target_section_title
     = Inr (Some (u ''## '' @ target_section_title @ u ''\<newline>  [T](x)|a|b|c|d|e '')) \<and>
   extract_papers_from_section ascii_tables
      (u ''## '' @ target_section_title @ u ''\<newline>  [T](x)|a|b|c|d|e '')
     = Inr [\<lparr> core_problem = u ''a'', data_source = u ''b'', data_mining_methods = u ''c'',
         conclusion = u ''d'', summary = u ''e'', title = Some (u ''T''), url = Some (u ''x''),
         context' = u ''[T](x)|a|b|c|d|e'', number = 1 \<rparr>] \<and>
   analyse ascii_tables
      (u ''# A\<newline>x\<newline>## '' @ target_section_title @ u ''\<newline>  [T](x)|a|b|c|d|e \<newline># B\<newline>[U](y)'')
      target_section_title
     = Inr [\<lparr> core_problem = u ''a'', data_source = u ''b'', data_mining_methods = u ''c'',
         conclusion = u ''d'', summary = u ''e'', title = Some (u ''T''), url = Some (u ''x''),
         context' = u ''[T](x)|a|b|c|d|e'', number = 1, entry_point = u ''a'' \<rparr>] \<and>
   (\<exists>run. sublist run (split_nl
        (u ''# A\<newline>x\<newline>## '' @ target_section_title @ u ''\<newline>  [T](x)|a|b|c|d|e \<newline># B\<newline>[U](y)'')) \<and>
      u ''## '' @ target_section_title @ u ''\<newline>  [T](x)|a|b|c|d|e '' = join_nl run) \<and>
   sublist (u ''[T](x)|a|b|c|d|e'')
      (u ''# A\<newline>x\<newline>## '' @ target_section_title @ u ''\<newline>  [T](x)|a|b|c|d|e \<newline># B\<newline>[U](y)'')"
proof -
  define content where "content =
    u ''# A\<newline>x\<newline>## '' @ target_section_title @ u ''\<newline>  [T](x)|a|b|c|d|e \<newline># B\<newline>[U](y)''"
  define found where "found = u ''## '' @ target_section_title @ u ''\<newline>  [T](x)|a|b|c|d|e ''"
  define h where "h = u ''## '' @ target_section_title"
  define row where "row = u ''[T](x)|a|b|c|d|e''"
  define p where "p = \<lparr> core_problem = u ''a'', data_source = u ''b'', data_mining_methods = u ''c'',
         conclusion = u ''d'', summary = u ''e'', title = Some (u ''T''), url = Some (u ''x''),
         context' = row, number = 1 \<rparr>"
  define r where "r = \<lparr> core_problem = u ''a'', data_source = u ''b'', data_mining_methods = u ''c'',
         conclusion = u ''d'', summary = u ''e'', title = Some (u ''T''), url = Some (u ''x''),
         context' = row, number = 1, entry_point = u ''a'' \<rparr>"
  have lines: "split_nl content = [u ''# A'', u ''x'', h, u ''  [T](x)|a|b|c|d|e '', u ''# B'', u ''[U](y)'']"
    by (simp add: content_def h_def target_section_title_def str_defs)
  have 1: "find_start (patterns ascii_tables target_section_title) (split_nl content) = Some 2"
    unfolding lines
    by (simp add: h_def patterns_def target_section_title_def tbl_defs re_defs str_defs)
  have 2: "heading_level (split_nl content ! 2) = Inr 2"
    unfolding lines by (simp add: h_def heading_level_def target_section_title_def re_defs str_defs)
  have 3: "find_end 2 (drop (2 + 1) (split_nl content)) = Inr (Some 1)"
    unfolding lines by (simp add: heading_level_def re_defs str_defs)
  have j: "h @ 10 # u ''  [T](x)|a|b|c|d|e '' = found"
    by (simp add: h_def found_def u_def)
  have f: "find_section ascii_tables content target_section_title = Inr (Some found)"
    unfolding find_section_returns [OF 1 2 3] lines by (simp add: j)
  have ne: "found \<noteq> []" by (simp add: found_def u_def)
  from f ne have so: "section_of ascii_tables content target_section_title = Inr found"
    by (simp add: section_of_def)
  have l: "split_nl found = [h, u ''  [T](x)|a|b|c|d|e '']"
    by (simp add: found_def h_def target_section_title_def str_defs)
  have s: "strip h = h" "strip (u ''  [T](x)|a|b|c|d|e '') = row"
    by (simp_all add: h_def row_def target_section_title_def str_defs)
  have m1: "re_match link_re h = None"
    by (simp add: h_def link_re_def target_section_title_def re_defs str_defs)
  have m2: "map_option snd (re_match link_re row) = Some (Map.empty(1 \<mapsto> u ''T'', 2 \<mapsto> u ''x''))"
    by (simp add: row_def link_re_def re_defs str_defs)
  have c: "extract_table_cells_from_line ascii_tables row =
     Inr \<lparr> core_problem = u ''a'', data_source = u ''b'', data_mining_methods = u ''c'',
       conclusion = u ''d'', summary = u ''e'' \<rparr>"
    by (simp add: row_def extract_table_cells_from_line_def clean_fields_def clean_field_def re_split_def
          re_sub_def cell_delimiter_def re_defs str_defs)
  have n: "h \<noteq> []" "row \<noteq> []"
    "\<not> startswith h separator_mark" "\<not> startswith h header_mark"
    "\<not> startswith row separator_mark" "\<not> startswith row header_mark"
    by (simp_all add: h_def row_def separator_mark_def header_mark_def target_section_title_def str_defs)
  from m2 obtain m where m: "re_match link_re row = Some m"
    "group m (Suc 0) = Some (u ''T'')" "group m 2 = Some (u ''x'')"
    by (auto simp: group_def)
  have e: "extract_papers_from_section ascii_tables found = Inr [p]"
    unfolding extract_papers_from_section_def l p_def
    by (simp add: Let_def s m1 m c n fields.extend_def paper.defs)
  have x: "u ''a'' \<noteq> []" "u ''c'' \<noteq> []" by (simp_all add: u_def)
  have d: "extract_research_details p = Inr \<lparr> research_entry_point = u ''a'', methods = u ''c'' \<rparr>"
    by (simp add: extract_research_details_def p_def x)
  have a: "analyse ascii_tables content target_section_title = Inr [r]"
    by (simp add: analyse_def so e d) (simp add: p_def r_def paper.extend_def paper.defs)
  have pin: "p \<in> set [p]" and rin: "r \<in> set [r]" by simp_all
  from zero_fabrication [of ascii_tables content target_section_title found found "[p]" p "[r]" r]
    f so e a pin rin
  have "(\<exists>run. sublist run (split_nl content) \<and> found = join_nl run)"
    and "sublist (context' p) content" and "sublist (context' r) content"
    by blast+
  moreover have "context' p = row" by (simp add: p_def)
  ultimately show ?thesis
    using f e a unfolding content_def found_def p_def r_def row_def by simp
qed

subsection \<open>Extra columns\<close>

text \<open>
  Claim C10 says that the text of the columns from index 6 on is lost from the structured
  fields and survives only in the record's \<open>context\<close>. The second pass parses the whole
  row again: for a row of seven parts whose methods column is empty and whose last column
  holds a labelled method, \<open>main\<close>'s update puts the text \<open>Z\<close> of that column into
  \<open>data_mining_methods\<close>.
\<close>

theorem extra_column_reaches_second_pass:
  "re_split cell_delimiter (u ''[T](x)||b||d|e|'' @ [0x65B9, 0x6CD5] @ u '':Z'') =
     [u ''[T](x)'', [], u ''b'', [], u ''d'', u ''e'', [0x65B9, 0x6CD5] @ u '':Z''] \<and>
   extract_papers_from_section ascii_tables (u ''[T](x)||b||d|e|'' @ [0x65B9, 0x6CD5] @ u '':Z'') =
     Inr [\<lparr> core_problem = [], data_source = u ''b'', data_mining_methods = [],
            conclusion = u ''d'', summary = u ''e'', title = Some (u ''T''), url = Some (u ''x''),
            context' = u ''[T](x)||b||d|e|'' @ [0x65B9, 0x6CD5] @ u '':Z'', number = 1 \<rparr>] \<and>
   update_all [\<lparr> core_problem = [], data_source = u ''b'', data_mining_methods = [],
            conclusion = u ''d'', summary = u ''e'', title = Some (u ''T''), url = Some (u ''x''),
            context' = u ''[T](x)||b||d|e|'' @ [0x65B9, 0x6CD5] @ u '':Z'', number = 1 \<rparr>] =
     Inr [\<lparr> core_problem = [], data_source = u ''b'', data_mining_methods = u ''Z'',
            conclusion = u ''d'', summary = u ''e'', title = Some (u ''T''), url = Some (u ''x''),
            context' = u ''[T](x)||b||d|e|'' @ [0x65B9, 0x6CD5] @ u '':Z'', number = 1,
            entry_point = [] \<rparr>]"
proof -
  define row where "row = u ''[T](x)||b||d|e|'' @ [0x65B9, 0x6CD5] @ u '':Z''"
  define p where "p = \<lparr> core_problem = [], data_source = u ''b'', data_mining_methods = [],
            conclusion = u ''d'', summary = u ''e'', title = Some (u ''T''), url = Some (u ''x''),
            context' = row, number = 1 \<rparr>"
  have parts: "re_split cell_delimiter row =
      [u ''[T](x)'', [], u ''b'', [], u ''d'', u ''e'', [0x65B9, 0x6CD5] @ u '':Z'']"
    by (simp add: row_def re_split_def cell_delimiter_def re_defs str_defs)
  have cl: "clean_field (strip []) = []" "clean_field (strip (u ''b'')) = u ''b''"
    "clean_field (strip (u ''d'')) = u ''d''" "clean_field (strip (u ''e'')) = u ''e''"
    by (simp_all add: clean_field_def re_sub_def re_defs str_defs)
  have c: "extract_table_cells_from_line ascii_tables row =
     Inr \<lparr> core_problem = [], data_source = u ''b'', data_mining_methods = [],
           conclusion = u ''d'', summary = u ''e'' \<rparr>"
    unfolding extract_table_cells_from_line_def parts by (simp add: clean_fields_def cl)
  have l: "split_nl row = [row]" by (simp add: row_def str_defs)
  have s: "strip row = row" by (simp add: row_def str_defs)
  have n: "row \<noteq> []" "\<not> startswith row separator_mark" "\<not> startswith row header_mark"
    by (simp_all add: row_def separator_mark_def header_mark_def str_defs)
  have m2: "map_option snd (re_match link_re row) = Some (Map.empty(1 \<mapsto> u ''T'', 2 \<mapsto> u ''x''))"
    by (simp add: row_def link_re_def re_defs str_defs)
  then obtain m where m: "re_match link_re row = Some m"
    "group m (Suc 0) = Some (u ''T'')" "group m 2 = Some (u ''x'')"
    by (auto simp: group_def)
  have e: "extract_papers_from_section ascii_tables row = Inr [p]"
    unfolding extract_papers_from_section_def l p_def
    by (simp add: Let_def s m c n fields.extend_def paper.defs)
  have en: "first_labelled entry_patterns row = Inr []"
    by (simp add: row_def entry_patterns_def labelled_def re_defs str_defs)
  have me: "first_labelled details_method_patterns row = Inr (u ''Z'')"
    by (simp add: row_def details_method_patterns_def labelled_def re_sub_def re_defs str_defs)
  have z: "u ''Z'' \<noteq> []" by (simp add: u_def)
  have d: "extract_research_details p = Inr \<lparr> research_entry_point = [], methods = u ''Z'' \<rparr>"
    unfolding extract_research_details_def Let_def p_def
    by (simp only: paper.simps fields.simps en me) (simp add: z)
  have up: "update_all [p] = Inr [\<lparr> core_problem = [], data_source = u ''b'', data_mining_methods = u ''Z'',
            conclusion = u ''d'', summary = u ''e'', title = Some (u ''T''), url = Some (u ''x''),
            context' = row, number = 1, entry_point = [] \<rparr>]"
    by (simp add: d) (simp add: p_def paper.extend_def paper.defs)
  from parts e up show ?thesis unfolding row_def p_def by blast
qed

lemma papers_cells:
  assumes "extract_papers_from_section db section_content = Inr papers" and "p \<in> set papers"
  shows "extract_table_cells_from_line db (context' p) = Inr (fields.truncate p)"
proof -
  from papers_loop_spec [of db "[]" "split_nl section_content"] assms(1) have
    "list_all (\<lambda>p. extract_table_cells_from_line db (context' p) = Inr (fields.truncate p)) papers"
    by (auto simp: extract_papers_from_section_def)
  with assms(2) show ?thesis by (simp add: list_all_iff)
qed

lemma first_six_parts_decide:
  assumes "length (re_split cell_delimiter line) > 6"
    and "take 6 (re_split cell_delimiter line') = take 6 (re_split cell_delimiter line)"
  shows "extract_table_cells_from_line db line' = extract_table_cells_from_line db line"
proof -
  let ?p = "re_split cell_delimiter line" and ?q = "re_split cell_delimiter line'"
  from assms(1) have lp: "length ?p \<ge> 6" by simp
  from assms have "length (take 6 ?q) = 6" by simp
  then have lq: "length ?q \<ge> 6" by simp
  have nth: "?q ! i = ?p ! i" if "i < 6" for i
  proof -
    from that have "?q ! i = take 6 ?q ! i" "?p ! i = take 6 ?p ! i" by simp_all
    with assms(2) show ?thesis by simp
  qed
  have eq: "?q ! 1 = ?p ! 1" "?q ! 2 = ?p ! 2" "?q ! 3 = ?p ! 3" "?q ! 4 = ?p ! 4" "?q ! 5 = ?p ! 5"
    by (simp_all add: nth)
  show ?thesis
    unfolding extract_table_cells_positional [OF lp] extract_table_cells_positional [OF lq]
    by (simp only: eq)
qed

text \<open>
  Claim C10 as the code has it: when the split yields more than six parts, the five values
  returned by \<open>extract_table_cells_from_line\<close> do not depend on the parts from index 6
  on (any line with the same first six parts gives the same values); and every record of
  \<open>extract_papers_from_section\<close> holds the values extracted from its \<open>context\<close>, which
  is a whole trimmed line of the section, extra columns included.
\<close>

theorem extra_columns_stay_in_context:
  "(length (re_split cell_delimiter line) > 6 \<longrightarrow>
    take 6 (re_split cell_delimiter line') = take 6 (re_split cell_delimiter line) \<longrightarrow>
      extract_table_cells_from_line db line' = extract_table_cells_from_line db line) \<and>
   (extract_papers_from_section db section_content = Inr papers \<longrightarrow> p \<in> set papers \<longrightarrow>
      extract_table_cells_from_line db (context' p) = Inr (fields.truncate p) \<and>
      (\<exists>l \<in> set (split_nl section_content). context' p = strip l))"
  using first_six_parts_decide papers_cells papers_context by blast

theorem extra_columns_stay_in_context_witness:
  "length (re_split cell_delimiter (u ''[T](x)|a|b|c|d|e|extra'')) > 6 \<and>
   take 6 (re_split cell_delimiter (u ''[T](x)|a|b|c|d|e|other|more'')) =
     take 6 (re_split cell_delimiter (u ''[T](x)|a|b|c|d|e|extra'')) \<and>
   extract_table_cells_from_line ascii_tables (u ''[T](x)|a|b|c|d|e|other|more'') =
     extract_table_cells_from_line ascii_tables (u ''[T](x)|a|b|c|d|e|extra'') \<and>
   extract_papers_from_section ascii_tables (u '' [T](x)|a|b|c|d|e|extra'') =
     Inr [\<lparr> core_problem = u ''a'', data_source = u ''b'', data_mining_methods = u ''c'',
            conclusion = u ''d'', summary = u ''e'', title = Some (u ''T''), url = Some (u ''x''),
            context' = u ''[T](x)|a|b|c|d|e|extra'', number = 1 \<rparr>] \<and>
   extract_table_cells_from_line ascii_tables (u ''[T](x)|a|b|c|d|e|extra'') =
     Inr \<lparr> core_problem = u ''a'', data_source = u ''b'', data_mining_methods = u ''c'',
           conclusion = u ''d'', summary = u ''e'' \<rparr> \<and>
   (\<exists>l \<in> set (split_nl (u '' [T](x)|a|b|c|d|e|extra'')). u ''[T](x)|a|b|c|d|e|extra'' = strip l)"
proof -
  define row where "row = u ''[T](x)|a|b|c|d|e|extra''"
  define row' where "row' = u ''[T](x)|a|b|c|d|e|other|more''"
  define p where "p = \<lparr> core_problem = u ''a'', data_source = u ''b'', data_mining_methods = u ''c'',
            conclusion = u ''d'', summary = u ''e'', title = Some (u ''T''), url = Some (u ''x''),
            context' = row, number = 1 \<rparr>"
  have parts: "re_split cell_delimiter row =
      [u ''[T](x)'', u ''a'', u ''b'', u ''c'', u ''d'', u ''e'', u ''extra'']"
    by (simp add: row_def re_split_def cell_delimiter_def re_defs str_defs)
  have parts': "re_split cell_delimiter row' =
      [u ''[T](x)'', u ''a'', u ''b'', u ''c'', u ''d'', u ''e'', u ''other'', u ''more'']"
    by (simp add: row'_def re_split_def cell_delimiter_def re_defs str_defs)
  have 1: "length (re_split cell_delimiter row) > 6" unfolding parts by simp
  have 2: "take 6 (re_split cell_delimiter row') = take 6 (re_split cell_delimiter row)"
    unfolding parts parts' by simp
  have cl: "clean_field (strip (u ''a'')) = u ''a''" "clean_field (strip (u ''b'')) = u ''b''"
    "clean_field (strip (u ''c'')) = u ''c''" "clean_field (strip (u ''d'')) = u ''d''"
    "clean_field (strip (u ''e'')) = u ''e''"
    by (simp_all add: clean_field_def re_sub_def re_defs str_defs)
  have c: "extract_table_cells_from_line ascii_tables row =
     Inr \<lparr> core_problem = u ''a'', data_source = u ''b'', data_mining_methods = u ''c'',
           conclusion = u ''d'', summary = u ''e'' \<rparr>"
    unfolding extract_table_cells_from_line_def parts by (simp add: clean_fields_def cl)
  have l: "split_nl (u '' [T](x)|a|b|c|d|e|extra'') = [u '' [T](x)|a|b|c|d|e|extra'']"
    by (simp add: str_defs)
  have s: "strip (u '' [T](x)|a|b|c|d|e|extra'') = row" by (simp add: row_def str_defs)
  have n: "row \<noteq> []" "\<not> startswith row separator_mark" "\<not> startswith row header_mark"
    by (simp_all add: row_def separator_mark_def header_mark_def str_defs)
  have m2: "map_option snd (re_match link_re row) = Some (Map.empty(1 \<mapsto> u ''T'', 2 \<mapsto> u ''x''))"
    by (simp add: row_def link_re_def re_defs str_defs)
  then obtain m where m: "re_match link_re row = Some m"
    "group m (Suc 0) = Some (u ''T'')" "group m 2 = Some (u ''x'')"
    by (auto simp: group_def)
  have e: "extract_papers_from_section ascii_tables (u '' [T](x)|a|b|c|d|e|extra'') = Inr [p]"
    unfolding extract_papers_from_section_def l p_def
    by (simp add: Let_def s m c n fields.extend_def paper.defs)
  have pin: "p \<in> set [p]" by simp
  from extra_columns_stay_in_context
    [of row row' ascii_tables "u '' [T](x)|a|b|c|d|e|extra''" "[p]" p] 1 2 e pin
  have "extract_table_cells_from_line ascii_tables row' = extract_table_cells_from_line ascii_tables row"
    and "extract_table_cells_from_line ascii_tables (context' p) = Inr (fields.truncate p)"
    and "\<exists>l \<in> set (split_nl (u '' [T](x)|a|b|c|d|e|extra'')). context' p = strip l"
    by blast+
  moreover have "context' p = row" "fields.truncate p =
      \<lparr> core_problem = u ''a'', data_source = u ''b'', data_mining_methods = u ''c'',
           conclusion = u ''d'', summary = u ''e'' \<rparr>"
    by (simp_all add: p_def fields.truncate_def)
  ultimately show ?thesis
    using 1 2 e unfolding row_def row'_def p_def by simp
qed

subsection \<open>read\_html\_file\<close>





subsection \<open>Passes that remove tags\<close>

lemma concat_map_single:
  assumes "\<And>x. x \<in> set xs \<Longrightarrow> f x = [x]"
  shows "concat (map f xs) = xs"
  using assms by (induction xs) auto

lemma prune_id:
  "every_tag (\<lambda>t. \<not> P t) n \<Longrightarrow> prune P n = [n]"
proof (induction n)
  case (Text k s)
  show ?case by simp
next
  case (Tag name attrs contents)
  from Tag.prems have "\<And>c. c \<in> set contents \<Longrightarrow> every_tag (\<lambda>t. \<not> P t) c"
    by (simp add: list_all_iff)
  with Tag.IH have "concat (map (prune P) contents) = contents"
    by (intro concat_map_single) auto
  with Tag.prems show ?case by simp
qed

lemma below_prune_id:
  "inside (\<lambda>t. \<not> P t) n \<Longrightarrow> below (prune P) n = n"
proof (cases n)
  case (Text k s)
  then show ?thesis by simp
next
  case (Tag name attrs contents)
  assume "inside (\<lambda>t. \<not> P t) n"
  with Tag have "\<And>c. c \<in> set contents \<Longrightarrow> prune P c = [c]"
    by (simp add: list_all_iff prune_id)
  then have "concat (map (prune P) contents) = contents" by (rule concat_map_single)
  with Tag show ?thesis by simp
qed

lemma prune_every_tag:
  assumes "every_tag R n"
    and step: "\<And>name attrs contents. R (Tag name attrs contents) \<Longrightarrow>
       list_all (every_tag R) contents \<Longrightarrow> \<not> P (Tag name attrs contents) \<Longrightarrow>
         Q (Tag name attrs (concat (map (prune P) contents)))"
  shows "list_all (every_tag Q) (prune P n)"
  using assms(1)
proof (induction n)
  case (Text k s)
  show ?case by simp
next
  case (Tag name attrs contents)
  show ?case
  proof (cases "P (Tag name attrs contents)")
    case True
    then show ?thesis by simp
  next
    case False
    from Tag.prems have R: "R (Tag name attrs contents)" "list_all (every_tag R) contents"
      by simp_all
    then have "\<And>c. c \<in> set contents \<Longrightarrow> list_all (every_tag Q) (prune P c)"
      using Tag.IH by (simp add: list_all_iff)
    then have "list_all (every_tag Q) (concat (map (prune P) contents))"
      by (auto simp: list_all_iff)
    with step [OF R False] False show ?thesis by simp
  qed
qed

lemma below_prune_inside:
  assumes "inside R n"
    and step: "\<And>name attrs contents. R (Tag name attrs contents) \<Longrightarrow>
       list_all (every_tag R) contents \<Longrightarrow> \<not> P (Tag name attrs contents) \<Longrightarrow>
         Q (Tag name attrs (concat (map (prune P) contents)))"
  shows "inside Q (below (prune P) n)"
proof (cases n)
  case (Text k s)
  then show ?thesis by simp
next
  case (Tag name attrs contents)
  have "list_all (every_tag Q) (prune P c)" if "c \<in> set contents" for c
  proof (rule prune_every_tag [of R c P Q])
    from that assms(1) Tag show "every_tag R c" by (simp add: list_all_iff)
  qed (rule step)
  then have "list_all (every_tag Q) (concat (map (prune P) contents))"
    by (auto simp: list_all_iff)
  with Tag show ?thesis by simp
qed

lemma every_tag_conj:
  "every_tag (\<lambda>t. Q t \<and> R t) n \<longleftrightarrow> every_tag Q n \<and> every_tag R n"
  by (induction n) (auto simp: list_all_iff)

lemma inside_conj:
  "inside (\<lambda>t. Q t \<and> R t) n \<longleftrightarrow> inside Q n \<and> inside R n"
  by (cases n) (auto simp: list_all_iff every_tag_conj)

lemma every_tag_inside: "every_tag Q n \<Longrightarrow> inside Q n"
  by (cases n) simp_all

lemma prune_texts:
  assumes "list_all is_text contents"
  shows "concat (map (prune P) contents) = contents"
proof (rule concat_map_single)
  fix x assume "x \<in> set contents"
  with assms have "is_text x" by (simp add: list_all_iff)
  then show "prune P x = [x]" by (cases x) simp_all
qed

subsection \<open>The steps of the cleaning pass\<close>

lemma every_tag_True: "every_tag (\<lambda>t. True) n"
  by (induction n) (auto simp: list_all_iff)

lemma inside_True: "inside (\<lambda>t. True) n"
  by (cases n) (auto simp: list_all_iff every_tag_True)

lemma clean_attr_twice:
  "concat (map (clean_attr db) (clean_attr db a)) = clean_attr db a"
proof (cases a)
  case (Pair attr_name v)
  show ?thesis
  proof (cases v)
    case (Str x)
    with Pair show ?thesis by (simp add: clean_attr_def)
  next
    case (Classes cs)
    with Pair show ?thesis by (auto simp: clean_attr_def Let_def)
  qed
qed

lemma clean_attrs_twice:
  "concat (map (clean_attr db) (concat (map (clean_attr db) attrs))) = concat (map (clean_attr db) attrs)"
  by (induction attrs) (simp_all add: clean_attr_twice)

lemma clean_element_attrs: "every_tag (attrs_clean db) (clean_element db n)"
  by (induction n) (auto simp: list_all_iff clean_attrs_twice)

lemma clean_element_id: "every_tag (attrs_clean db) n \<Longrightarrow> clean_element db n = n"
proof (induction n)
  case (Text k s)
  show ?case by simp
next
  case (Tag name attrs contents)
  then have "map (clean_element db) contents = contents"
    by (intro map_idI) (simp add: list_all_iff)
  with Tag.prems show ?case by simp
qed

lemma clean_element_is_text: "is_text (clean_element db n) = is_text n"
  by (cases n) simp_all

lemma clean_element_raw: "every_tag style_is_raw n \<Longrightarrow> every_tag style_is_raw (clean_element db n)"
  by (induction n) (auto simp: list_all_iff clean_element_is_text)

lemma below_clean_attrs: "inside (attrs_clean db) (below (\<lambda>element. [clean_element db element]) n)"
  by (cases n) (auto simp: list_all_iff clean_element_attrs)

lemma below_clean_id:
  "inside (attrs_clean db) n \<Longrightarrow> below (\<lambda>element. [clean_element db element]) n = n"
proof (cases n)
  case (Text k s)
  then show ?thesis by simp
next
  case (Tag name attrs contents)
  assume "inside (attrs_clean db) n"
  with Tag have "concat (map (\<lambda>element. [clean_element db element]) contents) = contents"
    by (intro concat_map_single) (simp add: list_all_iff clean_element_id)
  with Tag show ?thesis by simp
qed

lemma below_clean_raw:
  "inside style_is_raw n \<Longrightarrow> inside style_is_raw (below (\<lambda>element. [clean_element db element]) n)"
  by (cases n) (auto simp: list_all_iff clean_element_raw)

lemma keep_attrs_clean:
  "inside (attrs_clean db) n \<Longrightarrow> inside (attrs_clean db) (below (prune P) n)"
  by (rule below_prune_inside [where R = "attrs_clean db"]) simp_all

lemma keep_not_mso_tag:
  "inside (\<lambda>t. \<not> is_mso_tag t) n \<Longrightarrow> inside (\<lambda>t. \<not> is_mso_tag t) (below (prune P) n)"
  by (rule below_prune_inside [where R = "\<lambda>t. \<not> is_mso_tag t"]) simp_all

lemma keep_not_script_or_style:
  "inside (\<lambda>t. \<not> is_script_or_style t) n \<Longrightarrow>
   inside (\<lambda>t. \<not> is_script_or_style t) (below (prune P) n)"
  by (rule below_prune_inside [where R = "\<lambda>t. \<not> is_script_or_style t"]) simp_all

lemma keep_raw:
  "inside style_is_raw n \<Longrightarrow> inside style_is_raw (below (prune P) n)"
  by (rule below_prune_inside [where R = style_is_raw]) (auto simp: prune_texts)

lemma mso_style_raw:
  assumes "style_is_raw (Tag name attrs contents)"
  shows "is_mso_style db (Tag name attrs (concat (map (prune P) contents))) =
         is_mso_style db (Tag name attrs contents)"
proof (cases "name = u ''style''")
  case True
  with assms have "concat (map (prune P) contents) = contents" by (simp add: prune_texts)
  then show ?thesis by simp
next
  case False
  then show ?thesis by simp
qed

lemma keep_not_mso_style:
  assumes "inside style_is_raw n" and "inside (\<lambda>t. \<not> is_mso_style db t) n"
  shows "inside (\<lambda>t. \<not> is_mso_style db t) (below (prune P) n)"
proof (rule below_prune_inside [where R = "\<lambda>t. style_is_raw t \<and> \<not> is_mso_style db t"])
  from assms show "inside (\<lambda>t. style_is_raw t \<and> \<not> is_mso_style db t) n"
    by (simp add: inside_conj)
next
  fix name attrs contents
  assume "style_is_raw (Tag name attrs contents) \<and> \<not> is_mso_style db (Tag name attrs contents)"
  then show "\<not> is_mso_style db (Tag name attrs (concat (map (prune P) contents)))"
    using mso_style_raw [of name attrs contents db P] by blast
qed

lemma made_not_mso_tag: "inside (\<lambda>t. \<not> is_mso_tag t) (below (prune is_mso_tag) n)"
  by (rule below_prune_inside [where R = "\<lambda>t. True"]) (simp_all add: inside_True)

lemma made_not_script_or_style:
  "inside (\<lambda>t. \<not> is_script_or_style t) (below (prune is_script_or_style) n)"
  by (rule below_prune_inside [where R = "\<lambda>t. True"]) (simp_all add: inside_True)

lemma made_not_mso_style:
  assumes "inside style_is_raw n"
  shows "inside (\<lambda>t. \<not> is_mso_style db t) (below (prune (is_mso_style db)) n)"
proof (rule below_prune_inside [where R = style_is_raw])
  show "inside style_is_raw n" by (rule assms)
next
  fix name attrs contents
  assume "style_is_raw (Tag name attrs contents)" "\<not> is_mso_style db (Tag name attrs contents)"
  then show "\<not> is_mso_style db (Tag name attrs (concat (map (prune (is_mso_style db)) contents)))"
    using mso_style_raw [of name attrs contents db "is_mso_style db"] by blast
qed

lemma all_strings_nonempty: "[] \<notin> set (all_strings n)"
  by (induction n) auto

lemma get_text_Nil: "get_text n = [] \<longleftrightarrow> all_strings n = []"
proof -
  have "concat xs = [] \<longleftrightarrow> xs = []" if "[] \<notin> set xs" for xs :: "ustring list"
    using that by (cases xs) auto
  from this [OF all_strings_nonempty] show ?thesis by (simp add: get_text_def)
qed

lemma all_strings_prune:
  "concat (map all_strings (prune is_empty_block n)) = all_strings n"
proof (induction n)
  case (Text k s)
  show ?case by simp
next
  case (Tag name attrs contents)
  have inner: "concat (map all_strings (concat (map (prune is_empty_block) contents))) =
      concat (map all_strings contents)"
    using Tag.IH by (induction contents) auto
  show ?case
  proof (cases "is_empty_block (Tag name attrs contents)")
    case True
    then have e: "all_strings (Tag name attrs contents) = []" by (simp add: get_text_Nil)
    from True have p: "prune is_empty_block (Tag name attrs contents) = []" by simp
    show ?thesis unfolding p e by simp
  next
    case False
    then have p: "prune is_empty_block (Tag name attrs contents) =
        [Tag name attrs (concat (map (prune is_empty_block) contents))]"
      by simp
    show ?thesis unfolding p using inner by simp
  qed
qed

lemma made_not_empty_block:
  "inside (\<lambda>t. \<not> is_empty_block t) (below (prune is_empty_block) n)"
proof (rule below_prune_inside [where R = "\<lambda>t. True"])
  show "inside (\<lambda>t. True) n" by (rule inside_True)
next
  fix name attrs contents
  assume ne: "\<not> is_empty_block (Tag name attrs contents)"
  then have "prune is_empty_block (Tag name attrs contents) =
      [Tag name attrs (concat (map (prune is_empty_block) contents))]"
    by simp
  with all_strings_prune [of "Tag name attrs contents"]
  have "all_strings (Tag name attrs (concat (map (prune is_empty_block) contents))) =
      all_strings (Tag name attrs contents)"
    by (simp del: all_strings.simps prune.simps)
  with ne show "\<not> is_empty_block (Tag name attrs (concat (map (prune is_empty_block) contents)))"
    by (simp add: get_text_Nil del: all_strings.simps)
qed

lemma no_style_no_mso_style:
  "inside (\<lambda>t. \<not> is_script_or_style t) n \<Longrightarrow> inside (\<lambda>t. \<not> is_mso_style db t) n"
proof -
  have "every_tag (\<lambda>t. \<not> is_script_or_style t) m \<Longrightarrow> every_tag (\<lambda>t. \<not> is_mso_style db t) m" for m
    by (induction m) (auto simp: list_all_iff)
  then show "inside (\<lambda>t. \<not> is_script_or_style t) n \<Longrightarrow> inside (\<lambda>t. \<not> is_mso_style db t) n"
    by (cases n) (auto simp: list_all_iff)
qed

subsection \<open>The cleaning pass applied twice\<close>

lemma clean_mso_attributes_id:
  assumes "inside (attrs_clean db) n" and "inside (\<lambda>t. \<not> is_mso_tag t) n"
    and "inside (\<lambda>t. \<not> is_mso_style db t) n"
  shows "clean_mso_attributes db n = n"
  using assms by (simp add: clean_mso_attributes_def below_clean_id below_prune_id)

lemma clean_body_twice: "clean_body db (clean_body db body) = clean_body db body"
proof -
  define t1 where "t1 = below (\<lambda>element. [clean_element db element]) body"
  define t2 where "t2 = below (prune is_mso_tag) t1"
  define t3 where "t3 = below (prune (is_mso_style db)) t2"
  define t4 where "t4 = below (prune is_script_or_style) t3"
  define t5 where "t5 = below (prune is_empty_block) t4"
  have t5: "clean_body db body = t5"
    by (simp add: clean_body_def clean_mso_attributes_def t1_def t2_def t3_def t4_def t5_def)
  have "inside (attrs_clean db) t1" unfolding t1_def by (rule below_clean_attrs)
  then have "inside (attrs_clean db) t2" unfolding t2_def by (rule keep_attrs_clean)
  then have "inside (attrs_clean db) t3" unfolding t3_def by (rule keep_attrs_clean)
  then have "inside (attrs_clean db) t4" unfolding t4_def by (rule keep_attrs_clean)
  then have A: "inside (attrs_clean db) t5" unfolding t5_def by (rule keep_attrs_clean)
  have "inside (\<lambda>t. \<not> is_mso_tag t) t2" unfolding t2_def by (rule made_not_mso_tag)
  then have "inside (\<lambda>t. \<not> is_mso_tag t) t3" unfolding t3_def by (rule keep_not_mso_tag)
  then have "inside (\<lambda>t. \<not> is_mso_tag t) t4" unfolding t4_def by (rule keep_not_mso_tag)
  then have B: "inside (\<lambda>t. \<not> is_mso_tag t) t5" unfolding t5_def by (rule keep_not_mso_tag)
  have "inside (\<lambda>t. \<not> is_script_or_style t) t4"
    unfolding t4_def by (rule made_not_script_or_style)
  then have S: "inside (\<lambda>t. \<not> is_script_or_style t) t5"
    unfolding t5_def by (rule keep_not_script_or_style)
  then have C: "inside (\<lambda>t. \<not> is_mso_style db t) t5" by (rule no_style_no_mso_style)
  have D: "inside (\<lambda>t. \<not> is_empty_block t) t5" unfolding t5_def by (rule made_not_empty_block)
  show ?thesis
    unfolding t5 by (simp add: clean_body_def clean_mso_attributes_id A B C S D below_prune_id)
qed

lemma mso_stripper_twice:
  assumes "raw_styles body"
  shows "mso_stripper db (mso_stripper db body) = mso_stripper db body"
proof -
  define t1 where "t1 = below (\<lambda>element. [clean_element db element]) body"
  define t2 where "t2 = below (prune is_mso_tag) t1"
  define t3 where "t3 = below (prune (is_mso_style db)) t2"
  define t5 where "t5 = below (prune is_empty_block) t3"
  have t5: "mso_stripper db body = t5"
    by (simp add: mso_stripper_def clean_mso_attributes_def t1_def t2_def t3_def t5_def)
  from assms have "inside style_is_raw body" by (simp add: raw_styles_def every_tag_inside)
  then have "inside style_is_raw t1" unfolding t1_def by (rule below_clean_raw)
  then have R2: "inside style_is_raw t2" unfolding t2_def by (rule keep_raw)
  then have R3: "inside style_is_raw t3" unfolding t3_def by (rule keep_raw)
  have "inside (attrs_clean db) t1" unfolding t1_def by (rule below_clean_attrs)
  then have "inside (attrs_clean db) t2" unfolding t2_def by (rule keep_attrs_clean)
  then have "inside (attrs_clean db) t3" unfolding t3_def by (rule keep_attrs_clean)
  then have A: "inside (attrs_clean db) t5" unfolding t5_def by (rule keep_attrs_clean)
  have "inside (\<lambda>t. \<not> is_mso_tag t) t2" unfolding t2_def by (rule made_not_mso_tag)
  then have "inside (\<lambda>t. \<not> is_mso_tag t) t3" unfolding t3_def by (rule keep_not_mso_tag)
  then have B: "inside (\<lambda>t. \<not> is_mso_tag t) t5" unfolding t5_def by (rule keep_not_mso_tag)
  have "inside (\<lambda>t. \<not> is_mso_style db t) t3"
    unfolding t3_def using R2 by (rule made_not_mso_style)
  with R3 have C: "inside (\<lambda>t. \<not> is_mso_style db t) t5"
    unfolding t5_def by (rule keep_not_mso_style)
  have D: "inside (\<lambda>t. \<not> is_empty_block t) t5" unfolding t5_def by (rule made_not_empty_block)
  show ?thesis
    unfolding t5 by (simp add: mso_stripper_def clean_mso_attributes_id A B C D below_prune_id)
qed

text \<open>
  Claim C9: the cleaning pass applied twice gives the tree it gives applied once. For the
  steps as \<open>clean_html_content\<close> runs them on the body (lines 86 to 95) this holds of
  every tree. For the pass without the removal of the script and style tags
  (\<open>clean_mso_attributes\<close>, then the removal of the empty paragraphs and divisions) it
  holds of every tree whose style elements hold strings only, as in every tree a parser
  builds from HTML, where the content of a style element is raw text.
\<close>

theorem cleaning_pass_idempotent:
  "clean_body db (clean_body db body) = clean_body db body \<and>
   (raw_styles body \<longrightarrow> mso_stripper db (mso_stripper db body) = mso_stripper db body)"
  using clean_body_twice mso_stripper_twice by blast

theorem cleaning_pass_idempotent_witness:
  "raw_styles
     (Tag (u ''body'') [(u ''lang'', Str (u ''ZH-CN''))]
        [Tag (u ''div'') [] [Text Plain (u ''  '')],
         Tag (u ''p'') [(u ''class'', Classes [u ''MsoNormal'', u ''lead'']),
                        (u ''style'', Str (u ''mso-pagination:none''))]
           [Text Plain (u ''A''), Tag (u ''o:p'') [] []],
         Tag (u ''style'') [] [Text Special (u ''p {mso-style: x}'')],
         Tag (u ''style'') [] [Text Special (u ''p {color: red}'')]]) \<and>
   mso_stripper ascii_tables
     (Tag (u ''body'') [(u ''lang'', Str (u ''ZH-CN''))]
        [Tag (u ''div'') [] [Text Plain (u ''  '')],
         Tag (u ''p'') [(u ''class'', Classes [u ''MsoNormal'', u ''lead'']),
                        (u ''style'', Str (u ''mso-pagination:none''))]
           [Text Plain (u ''A''), Tag (u ''o:p'') [] []],
         Tag (u ''style'') [] [Text Special (u ''p {mso-style: x}'')],
         Tag (u ''style'') [] [Text Special (u ''p {color: red}'')]])
     = Tag (u ''body'') [(u ''lang'', Str (u ''ZH-CN''))]
        [Tag (u ''p'') [(u ''class'', Classes [u ''lead''])] [Text Plain (u ''A'')],
         Tag (u ''style'') [] [Text Special (u ''p {color: red}'')]] \<and>
   mso_stripper ascii_tables
     (Tag (u ''body'') [(u ''lang'', Str (u ''ZH-CN''))]
        [Tag (u ''p'') [(u ''class'', Classes [u ''lead''])] [Text Plain (u ''A'')],
         Tag (u ''style'') [] [Text Special (u ''p {color: red}'')]])
     = Tag (u ''body'') [(u ''lang'', Str (u ''ZH-CN''))]
        [Tag (u ''p'') [(u ''class'', Classes [u ''lead''])] [Text Plain (u ''A'')],
         Tag (u ''style'') [] [Text Special (u ''p {color: red}'')]]"
proof -
  define body where "body =
     Tag (u ''body'') [(u ''lang'', Str (u ''ZH-CN''))]
        [Tag (u ''div'') [] [Text Plain (u ''  '')],
         Tag (u ''p'') [(u ''class'', Classes [u ''MsoNormal'', u ''lead'']),
                        (u ''style'', Str (u ''mso-pagination:none''))]
           [Text Plain (u ''A''), Tag (u ''o:p'') [] []],
         Tag (u ''style'') [] [Text Special (u ''p {mso-style: x}'')],
         Tag (u ''style'') [] [Text Special (u ''p {color: red}'')]]"
  define cleaned where "cleaned =
     Tag (u ''body'') [(u ''lang'', Str (u ''ZH-CN''))]
        [Tag (u ''p'') [(u ''class'', Classes [u ''lead''])] [Text Plain (u ''A'')],
         Tag (u ''style'') [] [Text Special (u ''p {color: red}'')]]"
  have raw: "raw_styles body"
    by (simp add: body_def raw_styles_def u_def)
  have once: "mso_stripper ascii_tables body = cleaned"
    unfolding body_def cleaned_def
    by (simp add: mso_stripper_def clean_mso_attributes_def clean_attr_def any_in_def get_text_def
        mso_name_def ascii_tables_def ascii_lower_def Let_def re_defs str_defs)
  from cleaning_pass_idempotent [of ascii_tables body] raw
  have "mso_stripper ascii_tables (mso_stripper ascii_tables body) = mso_stripper ascii_tables body"
    by blast
  then have "mso_stripper ascii_tables cleaned = cleaned" unfolding once .
  with raw once show ?thesis unfolding body_def cleaned_def by blast
qed
text \<open>
  The condition on the style elements is needed for the second pass only on trees that
  no parser builds: a style element with an empty paragraph and a marked string below it
  has no \<open>.string\<close> until the paragraph is removed, and goes in the next pass.
\<close>

lemma nested_style_is_cleaned_in_two_passes:
  "mso_stripper ascii_tables
     (Tag (u ''body'') [] [Tag (u ''style'') [] [Tag (u ''p'') [] [], Text Special (u ''word'')]])
     = Tag (u ''body'') [] [Tag (u ''style'') [] [Text Special (u ''word'')]] \<and>
   mso_stripper ascii_tables
     (Tag (u ''body'') [] [Tag (u ''style'') [] [Text Special (u ''word'')]])
     = Tag (u ''body'') [] [] \<and>
   \<not> raw_styles
     (Tag (u ''body'') [] [Tag (u ''style'') [] [Tag (u ''p'') [] [], Text Special (u ''word'')]])"
  by (simp add: mso_stripper_def clean_mso_attributes_def clean_attr_def any_in_def get_text_def
        mso_name_def raw_styles_def ascii_tables_def ascii_lower_def Let_def re_defs str_defs)

end
